theory Spec2Isabelle
  imports Main "HOL-Library.Word" "HOL-Library.Monad_Syntax"
begin

unbundle bit_operations_syntax

section \<open>mac2bdf: Macintosh bitmap font resources to BDF\<close>

text \<open>
  A shallow embedding of \<^verbatim>\<open>src/mac2bdf.c\<close>. Bytes (\<^verbatim>\<open>CARD8\<close>) are \<open>8 word\<close>; every other
  C integer is an \<open>int\<close> with the conversions of the source (\<^verbatim>\<open>(CARD16)\<close>, \<^verbatim>\<open>(INT16)\<close>)
  written out as \<open>take_bit 16\<close> and \<open>signed_take_bit 15\<close>. A read or write outside
  the object it addresses is undefined behaviour in C; in the model it is \<open>None\<close>, and so
  is a loop that has not finished when its fuel is used up. The products and sums the
  source computes in \<^verbatim>\<open>int\<close> stay within 32 bits for every value of the 16-bit header
  fields but one, \<^verbatim>\<open>ht * rw * 2\<close> at \<^verbatim>\<open>ht = rw = -32768\<close>, where the model's \<open>2 ^ 31\<close>
  addresses no buffer either.
\<close>

subsection \<open>Memory and the Byte Decoder (lines 203-229)\<close>

text \<open>
  A buffer is a list of bytes, addressed from 0. \<open>rd\<close> and \<open>store\<close> are the C accesses
  \<^verbatim>\<open>p[a]\<close> and \<^verbatim>\<open>p[a] = v\<close>; outside the buffer they are undefined in C and \<open>None\<close> here.
\<close>

type_synonym CARD8 = "8 word"
type_synonym mem = "CARD8 list"

definition rd :: "mem \<Rightarrow> int \<Rightarrow> CARD8 option" where
  "rd m a = (if 0 \<le> a \<and> a < int (length m) then Some (m ! nat a) else None)"

definition store :: "mem \<Rightarrow> int \<Rightarrow> CARD8 \<Rightarrow> mem option" where
  "store m a v = (if 0 \<le> a \<and> a < int (length m) then Some (m[nat a := v]) else None)"

text \<open>The conversions \<^verbatim>\<open>(CARD16)\<close> and \<^verbatim>\<open>(INT16)\<close> of an \<^verbatim>\<open>int\<close>.\<close>

definition to_card16 :: "int \<Rightarrow> int" where
  "to_card16 x = take_bit 16 x"

definition to_int16 :: "int \<Rightarrow> int" where
  "to_int16 x = signed_take_bit 15 x"

text \<open>
  \<^verbatim>\<open>toushort (p)\<close> is \<^verbatim>\<open>(CARD16) ((p[0] << 8) | p[1])\<close> and \<^verbatim>\<open>toshort (p)\<close> is
  \<^verbatim>\<open>(INT16) toushort (p)\<close>; the pointer \<^verbatim>\<open>p\<close> is a buffer and an offset into it.
\<close>

definition toushort :: "mem \<Rightarrow> int \<Rightarrow> int option" where
  "toushort m a = do {
     p0 \<leftarrow> rd m a;
     p1 \<leftarrow> rd m (a + 1);
     Some (to_card16 (push_bit 8 (uint p0) OR uint p1))
   }"

definition toshort :: "mem \<Rightarrow> int \<Rightarrow> int option" where
  "toshort m a = map_option to_int16 (toushort m a)"

subsection \<open>The formats of \<^verbatim>\<open>printf\<close> that the source uses\<close>

definition dec_chars :: string where
  "dec_chars = ''0123456789''"

definition hex_lower :: string where
  "hex_lower = ''0123456789abcdef''"

definition hex_upper :: string where
  "hex_upper = ''0123456789ABCDEF''"

fun dec_digits :: "nat \<Rightarrow> string" where
  "dec_digits n =
    (if n < 10 then [dec_chars ! n] else dec_digits (n div 10) @ [dec_chars ! (n mod 10)])"

fun hex_digits :: "string \<Rightarrow> nat \<Rightarrow> string" where
  "hex_digits ds n =
    (if n < 16 then [ds ! n] else hex_digits ds (n div 16) @ [ds ! (n mod 16)])"

declare dec_digits.simps [simp del] hex_digits.simps [simp del]

text \<open>\<^verbatim>\<open>%d\<close> of an \<^verbatim>\<open>int\<close>.\<close>

definition printf_d :: "int \<Rightarrow> string" where
  "printf_d n = (if n < 0 then CHR ''-'' # dec_digits (nat (- n)) else dec_digits (nat n))"

text \<open>
  \<^verbatim>\<open>%02x\<close> and \<^verbatim>\<open>%02X\<close>: the argument read as a 32-bit unsigned value, in hexadecimal with
  the given digits, padded with zeros on the left to at least two digits.
\<close>

definition zero_pad2 :: "string \<Rightarrow> string" where
  "zero_pad2 s = replicate (2 - length s) (CHR ''0'') @ s"

definition printf_02x :: "int \<Rightarrow> string" where
  "printf_02x n = zero_pad2 (hex_digits hex_lower (nat (take_bit 32 n)))"

definition printf_02X :: "int \<Rightarrow> string" where
  "printf_02X n = zero_pad2 (hex_digits hex_upper (nat (take_bit 32 n)))"

definition newline :: char where
  "newline = CHR 0x0A"

subsection \<open>Style Namer (\<^verbatim>\<open>FontStyleName\<close>, lines 361-387)\<close>

text \<open>
  The static buffer \<^verbatim>\<open>sname\<close> is reset by \<^verbatim>\<open>sname[0] = '\0'\<close> on entry, so the string
  built by the seven \<^verbatim>\<open>strcat\<close> calls depends on \<^verbatim>\<open>style\<close> only. The octal constants
  0001 ... 0100 are 1, 2, 4, 8, 16, 32, 64. (The copy returned is allocated with
  \<^verbatim>\<open>malloc (strlen (sname+1))\<close>; heap sizes are not part of this model, the value
  copied is.)
\<close>

definition strcat :: "string \<Rightarrow> string \<Rightarrow> string" where
  "strcat dst src = dst @ src"

definition FontStyleName :: "int \<Rightarrow> string" where
  "FontStyleName style =
    (let sname = [];
         sname = (if style AND 1 \<noteq> 0 then strcat sname ''Bold'' else sname);
         sname = (if style AND 2 \<noteq> 0 then strcat sname ''Italic'' else sname);
         sname = (if style AND 4 \<noteq> 0 then strcat sname ''Underlined'' else sname);
         sname = (if style AND 8 \<noteq> 0 then strcat sname ''Outlined'' else sname);
         sname = (if style AND 16 \<noteq> 0 then strcat sname ''Shadowed'' else sname);
         sname = (if style AND 32 \<noteq> 0 then strcat sname ''Condensed'' else sname);
         sname = (if style AND 64 \<noteq> 0 then strcat sname ''Extended'' else sname)
     in sname)"



subsection \<open>The font resource and its three regions\<close>

text \<open>
  \<^verbatim>\<open>struct _FontRsrcRec\<close> is thirteen two-byte fields (26 bytes); the resource is the
  buffer that starts with it. The header fields the two functions decode on entry:
\<close>

record font_header =
  ftFirstChar :: int    \<comment> \<open>\<^verbatim>\<open>fg = toushort (fp->ftFirstChar)\<close>, offset 2\<close>
  ftLastChar :: int     \<comment> \<open>\<^verbatim>\<open>lg = toushort (fp->ftLastChar)\<close>, offset 4\<close>
  ftKernMax :: int      \<comment> \<open>\<^verbatim>\<open>mk = toshort (fp->ftKernMax)\<close>, offset 8\<close>
  ftFRectWidth :: int   \<comment> \<open>\<^verbatim>\<open>wd = toshort (fp->ftFRectWidth)\<close>, offset 12\<close>
  ftFRectHeight :: int  \<comment> \<open>\<^verbatim>\<open>ht = toshort (fp->ftFRectHeight)\<close>, offset 14\<close>
  ftOWTLoc :: int       \<comment> \<open>\<^verbatim>\<open>wo = toushort (fp->ftOWTLoc)\<close>, offset 16\<close>
  ftRowWords :: int     \<comment> \<open>\<^verbatim>\<open>rw = toshort (fp->ftRowWords)\<close>, offset 24\<close>

definition read_header :: "mem \<Rightarrow> font_header option" where
  "read_header fp = do {
     fg \<leftarrow> toushort fp 2;
     lg \<leftarrow> toushort fp 4;
     mk \<leftarrow> toshort fp 8;
     wd \<leftarrow> toshort fp 12;
     ht \<leftarrow> toshort fp 14;
     wo \<leftarrow> toushort fp 16;
     rw \<leftarrow> toshort fp 24;
     Some \<lparr> ftFirstChar = fg, ftLastChar = lg, ftKernMax = mk, ftFRectWidth = wd,
            ftFRectHeight = ht, ftOWTLoc = wo, ftRowWords = rw \<rparr>
   }"

text \<open>
  \<^verbatim>\<open>bitImage = & fp [1]\<close>, \<^verbatim>\<open>locTable = & bitImage [(rw * ht) << 1]\<close> and
  \<^verbatim>\<open>owTable = & locTable [(lg - fg + 3) << 1]\<close>, as offsets into the resource.
\<close>

definition bitImage :: int where
  "bitImage = 26"

definition locTable :: "font_header \<Rightarrow> int" where
  "locTable h = bitImage + 2 * (ftRowWords h * ftFRectHeight h)"

definition owTable :: "font_header \<Rightarrow> int" where
  "owTable h = locTable h + 2 * (ftLastChar h - ftFirstChar h + 3)"

text \<open>
  What the code depends on beside its arguments: the byte order of the host (the bitmap
  words are read through a \<^verbatim>\<open>CARD16 *\<close>), whether the address of the resource is odd
  (\<^verbatim>\<open>(CARD32) bitImage & 0x1\<close>; the header has even length), the globals \<^verbatim>\<open>quiet\<close> and
  \<^verbatim>\<open>progname\<close>, and whether \<^verbatim>\<open>fopen (fname, "w+")\<close> succeeds.
\<close>

record env =
  big_endian :: bool
  odd_base :: bool
  quiet :: bool
  progname :: string
  can_create :: "string \<Rightarrow> bool"

text \<open>
  Lines 273-277 and 466-470: at an odd address the \<^verbatim>\<open>ht * rw * 2\<close> bytes of the image are
  copied into a fresh buffer, otherwise \<^verbatim>\<open>bp\<close> points into the resource itself.
\<close>

definition load_bp :: "env \<Rightarrow> mem \<Rightarrow> font_header \<Rightarrow> mem option" where
  "load_bp e fp h =
    (if odd_base e then
       (if 0 \<le> ftFRectHeight h * ftRowWords h * 2 \<and> bitImage + ftFRectHeight h * ftRowWords h * 2 \<le> int (length fp)
        then Some (take (nat (ftFRectHeight h * ftRowWords h * 2)) (drop (nat bitImage) fp))
        else None)
     else Some (drop (nat bitImage) fp))"

text \<open>\<^verbatim>\<open>bp [k]\<close>: a 16-bit load in the byte order of the host.\<close>

definition bp_word :: "env \<Rightarrow> mem \<Rightarrow> int \<Rightarrow> int option" where
  "bp_word e bp k = do {
     b0 \<leftarrow> rd bp (2 * k);
     b1 \<leftarrow> rd bp (2 * k + 1);
     Some (if big_endian e then uint b0 * 256 + uint b1 else uint b1 * 256 + uint b0)
   }"

text \<open>
  \<^verbatim>\<open>(bp [i * rw + (j / 16)] >> (15 - (j % 16))) & 1\<close>, for a column \<^verbatim>\<open>j\<close> that starts at
  the unsigned \<^verbatim>\<open>coff0\<close> and so is never negative.
\<close>

definition pixel :: "env \<Rightarrow> mem \<Rightarrow> int \<Rightarrow> int \<Rightarrow> int \<Rightarrow> int option" where
  "pixel e bp rw i j = do {
     w \<leftarrow> bp_word e bp (i * rw + j div 16);
     Some (drop_bit (nat (15 - j mod 16)) w AND 1)
   }"

text \<open>\<^verbatim>\<open>gp = alloca (n); memset (gp, 0, n)\<close>; a negative \<^verbatim>\<open>n\<close> is no size.\<close>

definition alloca_zero :: "int \<Rightarrow> mem option" where
  "alloca_zero n = (if 0 \<le> n then Some (replicate (nat n) 0) else None)"

text \<open>
  Lines 316-326 and 504-514: \<^verbatim>\<open>top = ht; bot = 0;\<close> and the scan of every cell of the
  raster. Lines 331-341 are the same scan for \<^verbatim>\<open>left = wd; right = 0;\<close>.
\<close>

fun scan_tb_cols :: "mem \<Rightarrow> int \<Rightarrow> int \<Rightarrow> int list \<Rightarrow> int \<times> int \<Rightarrow> (int \<times> int) option" where
  "scan_tb_cols gp wd i [] tb = Some tb"
| "scan_tb_cols gp wd i (j # js) tb = do {
     b \<leftarrow> rd gp (i * wd + j);
     let top = (if b \<noteq> 0 \<and> i < fst tb then i else fst tb);
     let bot = (if b \<noteq> 0 \<and> i > snd tb then i else snd tb);
     scan_tb_cols gp wd i js (top, bot)
   }"

fun scan_tb_rows :: "mem \<Rightarrow> int \<Rightarrow> int list \<Rightarrow> int \<times> int \<Rightarrow> (int \<times> int) option" where
  "scan_tb_rows gp wd [] tb = Some tb"
| "scan_tb_rows gp wd (i # is) tb = do {
     tb' \<leftarrow> scan_tb_cols gp wd i [0..wd - 1] tb;
     scan_tb_rows gp wd is tb'
   }"

definition find_top_bot :: "mem \<Rightarrow> int \<Rightarrow> int \<Rightarrow> (int \<times> int) option" where
  "find_top_bot gp wd ht = scan_tb_rows gp wd [0..ht - 1] (ht, 0)"

fun scan_lr_cols :: "mem \<Rightarrow> int \<Rightarrow> int \<Rightarrow> int list \<Rightarrow> int \<times> int \<Rightarrow> (int \<times> int) option" where
  "scan_lr_cols gp wd i [] lr = Some lr"
| "scan_lr_cols gp wd i (j # js) lr = do {
     b \<leftarrow> rd gp (i * wd + j);
     let left = (if b \<noteq> 0 \<and> j < fst lr then j else fst lr);
     let right = (if b \<noteq> 0 \<and> j > snd lr then j else snd lr);
     scan_lr_cols gp wd i js (left, right)
   }"

fun scan_lr_rows :: "mem \<Rightarrow> int \<Rightarrow> int list \<Rightarrow> int \<times> int \<Rightarrow> (int \<times> int) option" where
  "scan_lr_rows gp wd [] lr = Some lr"
| "scan_lr_rows gp wd (i # is) lr = do {
     lr' \<leftarrow> scan_lr_cols gp wd i [0..wd - 1] lr;
     scan_lr_rows gp wd is lr'
   }"

definition find_left_right :: "mem \<Rightarrow> int \<Rightarrow> int \<Rightarrow> (int \<times> int) option" where
  "find_left_right gp wd ht = scan_lr_rows gp wd [0..ht - 1] (wd, 0)"

text \<open>\<^verbatim>\<open>g++\<close> on the \<^verbatim>\<open>CARD16\<close> glyph counter: it wraps from 65535 to 0.\<close>

definition next_g :: "int \<Rightarrow> int" where
  "next_g g = to_card16 (g + 1)"

subsection \<open>Global pass (\<^verbatim>\<open>FontInfo\<close>, lines 234-359)\<close>

text \<open>
  Lines 301-308, the overlay of one glyph into the whole-font raster: a column that
  would land left of the raster is skipped, every other cell is or-ed with the pixel.
\<close>

fun overlay_cols ::
  "env \<Rightarrow> mem \<Rightarrow> font_header \<Rightarrow> int \<Rightarrow> int \<Rightarrow> int \<Rightarrow> int list \<Rightarrow> mem \<Rightarrow> mem option" where
  "overlay_cols e bp h coff0 xoff i [] gp = Some gp"
| "overlay_cols e bp h coff0 xoff i (j # js) gp =
    (if (j - coff0) + xoff < 0 then overlay_cols e bp h coff0 xoff i js gp
     else do {
       old \<leftarrow> rd gp (i * ftFRectWidth h + (j - coff0) + xoff);
       bit \<leftarrow> pixel e bp (ftRowWords h) i j;
       gp' \<leftarrow> store gp (i * ftFRectWidth h + (j - coff0) + xoff) (old OR word_of_int bit);
       overlay_cols e bp h coff0 xoff i js gp'
     })"

fun overlay_rows ::
  "env \<Rightarrow> mem \<Rightarrow> font_header \<Rightarrow> int \<Rightarrow> int \<Rightarrow> int \<Rightarrow> int list \<Rightarrow> mem \<Rightarrow> mem option" where
  "overlay_rows e bp h coff0 coff1 xoff [] gp = Some gp"
| "overlay_rows e bp h coff0 coff1 xoff (i # is) gp = do {
     gp' \<leftarrow> overlay_cols e bp h coff0 xoff i [coff0..coff1 - 1] gp;
     overlay_rows e bp h coff0 coff1 xoff is gp'
   }"

text \<open>
  The body of the glyph loop, lines 283-310, on the loop's state: the raster \<^verbatim>\<open>gp\<close> and
  the count \<^verbatim>\<open>ng\<close> (an \<^verbatim>\<open>INT16\<close>, as \<^verbatim>\<open>xoff\<close> is).
\<close>

definition FontInfo_glyph ::
  "env \<Rightarrow> mem \<Rightarrow> mem \<Rightarrow> font_header \<Rightarrow> int \<Rightarrow> mem \<times> int \<Rightarrow> (mem \<times> int) option" where
  "FontInfo_glyph e fp bp h g st = do {
     coff0 \<leftarrow> toushort fp (locTable h + 2 * ((g - ftFirstChar h) + 0));
     coff1 \<leftarrow> toushort fp (locTable h + 2 * ((g - ftFirstChar h) + 1));
     if coff0 = coff1 then Some st
     else do {
       ow \<leftarrow> toushort fp (owTable h + 2 * (g - ftFirstChar h));
       let xoff = to_int16 ((drop_bit 8 ow AND 255) + ftKernMax h);
       gp' \<leftarrow> overlay_rows e bp h coff0 coff1 xoff [0..ftFRectHeight h - 1] (fst st);
       Some (gp', to_int16 (snd st + 1))
     }
   }"

text \<open>
  \<^verbatim>\<open>for (g = fg, ng = 0; g <= lg; g++)\<close>. With \<^verbatim>\<open>lg\<close> = 65535 the counter wraps and the
  loop has no end, so the loop runs on fuel: one unit for each test of \<^verbatim>\<open>g <= lg\<close>.
\<close>

fun FontInfo_glyphs ::
  "nat \<Rightarrow> env \<Rightarrow> mem \<Rightarrow> mem \<Rightarrow> font_header \<Rightarrow> int \<Rightarrow> mem \<times> int \<Rightarrow> (mem \<times> int) option" where
  "FontInfo_glyphs 0 e fp bp h g st = None"
| "FontInfo_glyphs (Suc fuel) e fp bp h g st =
    (if g \<le> ftLastChar h then do {
       st' \<leftarrow> FontInfo_glyph e fp bp h g st;
       FontInfo_glyphs fuel e fp bp h (next_g g) st'
     }
     else Some st)"

text \<open>
  What \<^verbatim>\<open>FontInfo\<close> leaves in the five cells its result parameters point to: either it
  stored nothing, or \<^verbatim>\<open>*ret_top\<close>, \<^verbatim>\<open>*ret_left\<close>, \<^verbatim>\<open>*ret_bottom\<close>, \<^verbatim>\<open>*ret_right\<close> and
  \<^verbatim>\<open>*ret_ng\<close>.
\<close>

datatype font_info = NotStored | Stored int int int int int

definition FontInfo :: "nat \<Rightarrow> env \<Rightarrow> mem \<Rightarrow> font_info option" where
  "FontInfo fuel e fp = do {
     h \<leftarrow> read_header fp;
     if ftLastChar h = ftFirstChar h then Some NotStored
     else do {
       bp \<leftarrow> load_bp e fp h;
       gp \<leftarrow> alloca_zero (ftFRectWidth h * ftFRectHeight h);
       (gp, ng) \<leftarrow> FontInfo_glyphs fuel e fp bp h (ftFirstChar h) (gp, 0);
       (top, bot) \<leftarrow> find_top_bot gp (ftFRectWidth h) (ftFRectHeight h);
       (left, right) \<leftarrow> find_left_right gp (ftFRectWidth h) (ftFRectHeight h);
       Some (Stored top (to_int16 (left + ftKernMax h)) bot (to_int16 (right + ftKernMax h)) ng)
     }
   }"

subsection \<open>BDF Emitter (\<^verbatim>\<open>FontDump\<close>, lines 389-545)\<close>

text \<open>
  One value for each \<^verbatim>\<open>fprintf (fout, ...)\<close> of the source, holding the arguments of the
  format; \<open>render\<close> is the text the format makes of them. A bitmap row is the text
  that lines 527-538 print for it, its newline included.
\<close>

datatype bdf_line =
    STARTFONT
  | FONT string string int
  | SIZE int int int
  | FONTBOUNDINGBOX int int int int
  | STARTPROPERTIES
  | FONT_ASCENT int
  | FONT_DESCENT int
  | ENDPROPERTIES
  | CHARS int
  | STARTCHAR int
  | ENCODING int
  | SWIDTH int int
  | DWIDTH int int
  | BBX int int int int
  | BITMAP
  | HEXROW string
  | ENDCHAR
  | ENDFONT

fun render :: "bdf_line \<Rightarrow> string" where
  "render STARTFONT = ''STARTFONT 2.1'' @ [newline]"
| "render (FONT name sname sz) =
     ''FONT '' @ name @ sname @ ''-'' @ printf_d sz @ [newline]"
| "render (SIZE sz xres yres) =
     ''SIZE '' @ printf_d sz @ '' '' @ printf_d xres @ '' '' @ printf_d yres @ [newline]"
| "render (FONTBOUNDINGBOX w h x y) =
     ''FONTBOUNDINGBOX '' @ printf_d w @ '' '' @ printf_d h @ '' '' @ printf_d x @ '' ''
       @ printf_d y @ [newline]"
| "render STARTPROPERTIES = ''STARTPROPERTIES 2'' @ [newline]"
| "render (FONT_ASCENT a) = ''FONT_ASCENT '' @ printf_d a @ [newline]"
| "render (FONT_DESCENT d) = ''FONT_DESCENT '' @ printf_d d @ [newline]"
| "render ENDPROPERTIES = ''ENDPROPERTIES'' @ [newline]"
| "render (CHARS n) = ''CHARS '' @ printf_d n @ [newline]"
| "render (STARTCHAR g) = ''STARTCHAR GCID'' @ printf_02X g @ [newline]"
| "render (ENCODING g) = ''ENCODING '' @ printf_d g @ [newline]"
| "render (SWIDTH x y) = ''SWIDTH '' @ printf_d x @ '' '' @ printf_d y @ [newline]"
| "render (DWIDTH x y) = ''DWIDTH '' @ printf_d x @ '' '' @ printf_d y @ [newline]"
| "render (BBX w h x y) =
     ''BBX '' @ printf_d w @ '' '' @ printf_d h @ '' '' @ printf_d x @ '' '' @ printf_d y
       @ [newline]"
| "render BITMAP = ''BITMAP'' @ [newline]"
| "render (HEXROW s) = s"
| "render ENDCHAR = ''ENDCHAR'' @ [newline]"
| "render ENDFONT = ''ENDFONT'' @ [newline]"

definition DEVXRES :: int where
  "DEVXRES = 72"

definition DEVYRES :: int where
  "DEVYRES = 72"

text \<open>
  Lines 493-499, the raster of one glyph: \<^verbatim>\<open>gp\<close> is cleared, then cell
  \<^verbatim>\<open>i * wd + (j - coff0)\<close> receives the pixel of row \<^verbatim>\<open>i\<close>, column \<^verbatim>\<open>j\<close>. The buffer
  has \<^verbatim>\<open>wd * ht\<close> cells on every turn of the loop and nothing reads it between two
  glyphs, so each glyph starts from the cleared buffer.
\<close>

fun extract_cols ::
  "env \<Rightarrow> mem \<Rightarrow> font_header \<Rightarrow> int \<Rightarrow> int \<Rightarrow> int list \<Rightarrow> mem \<Rightarrow> mem option" where
  "extract_cols e bp h coff0 i [] gp = Some gp"
| "extract_cols e bp h coff0 i (j # js) gp = do {
     bit \<leftarrow> pixel e bp (ftRowWords h) i j;
     gp' \<leftarrow> store gp (i * ftFRectWidth h + (j - coff0)) (word_of_int bit);
     extract_cols e bp h coff0 i js gp'
   }"

fun extract_rows ::
  "env \<Rightarrow> mem \<Rightarrow> font_header \<Rightarrow> int \<Rightarrow> int \<Rightarrow> int list \<Rightarrow> mem \<Rightarrow> mem option" where
  "extract_rows e bp h coff0 coff1 [] gp = Some gp"
| "extract_rows e bp h coff0 coff1 (i # is) gp = do {
     gp' \<leftarrow> extract_cols e bp h coff0 i [coff0..coff1 - 1] gp;
     extract_rows e bp h coff0 coff1 is gp'
   }"

definition glyph_raster :: "env \<Rightarrow> mem \<Rightarrow> font_header \<Rightarrow> int \<Rightarrow> int \<Rightarrow> mem option" where
  "glyph_raster e bp h coff0 coff1 = do {
     gp \<leftarrow> alloca_zero (ftFRectWidth h * ftFRectHeight h);
     extract_rows e bp h coff0 coff1 [0..ftFRectHeight h - 1] gp
   }"

text \<open>
  Lines 527-533, the columns of one bitmap row: \<^verbatim>\<open>bits |= gp [i * wd + j]\<close>, a byte
  printed and \<^verbatim>\<open>bits\<close> reset after every eighth column, and \<^verbatim>\<open>bits <<= 1\<close> with the
  step of the loop. The state is \<^verbatim>\<open>bits\<close> and the text printed so far.
\<close>

fun pack_cols ::
  "mem \<Rightarrow> int \<Rightarrow> int \<Rightarrow> int list \<Rightarrow> int \<times> string \<Rightarrow> (int \<times> string) option" where
  "pack_cols gp wd i [] st = Some st"
| "pack_cols gp wd i (j # js) st = do {
     b \<leftarrow> rd gp (i * wd + j);
     let bits = fst st OR uint b;
     let st' = (if j AND 7 = 7 then (0, snd st @ printf_02x bits) else (bits, snd st));
     pack_cols gp wd i js (push_bit 1 (fst st'), snd st')
   }"

text \<open>
  Lines 527-538, one row: after the loop \<^verbatim>\<open>j\<close> is the span \<^verbatim>\<open>coff1 - coff0\<close> (or 0 when
  the span is not positive), then \<^verbatim>\<open>bits <<= 7 - (j % 8)\<close> and the last byte, if any.
\<close>

definition pack_row :: "mem \<Rightarrow> int \<Rightarrow> int \<Rightarrow> int \<Rightarrow> string option" where
  "pack_row gp wd span i = do {
     (bits, out) \<leftarrow> pack_cols gp wd i [0..span - 1] (0, []);
     let j = (if 0 < span then span else 0);
     let bits = push_bit (nat (7 - j mod 8)) bits;
     Some (if j AND 7 \<noteq> 0 then out @ printf_02x bits @ [newline] else out @ [newline])
   }"

fun pack_rows :: "mem \<Rightarrow> int \<Rightarrow> int \<Rightarrow> int list \<Rightarrow> bdf_line list option" where
  "pack_rows gp wd span [] = Some []"
| "pack_rows gp wd span (i # is) = do {
     r \<leftarrow> pack_row gp wd span i;
     rs \<leftarrow> pack_rows gp wd span is;
     Some (HEXROW r # rs)
   }"

text \<open>
  The body of the glyph loop, lines 476-540: the lines it prints for glyph \<^verbatim>\<open>g\<close>, none
  when the two location entries are equal.
\<close>

definition dump_glyph :: "env \<Rightarrow> mem \<Rightarrow> mem \<Rightarrow> font_header \<Rightarrow> int \<Rightarrow> bdf_line list option" where
  "dump_glyph e fp bp h g = do {
     coff0 \<leftarrow> toushort fp (locTable h + 2 * ((g - ftFirstChar h) + 0));
     coff1 \<leftarrow> toushort fp (locTable h + 2 * ((g - ftFirstChar h) + 1));
     if coff0 = coff1 then Some []
     else do {
       ow \<leftarrow> toushort fp (owTable h + 2 * (g - ftFirstChar h));
       gp \<leftarrow> glyph_raster e bp h coff0 coff1;
       (top, bot) \<leftarrow> find_top_bot gp (ftFRectWidth h) (ftFRectHeight h);
       descent \<leftarrow> toshort fp 20;
       rows \<leftarrow> pack_rows gp (ftFRectWidth h) (coff1 - coff0) [top..bot];
       Some ([STARTCHAR g,
              ENCODING g,
              SWIDTH ((ow AND 255) * 720) 0,
              DWIDTH (ow AND 255) 0,
              BBX (coff1 - coff0) ((bot - top) + 1) ((drop_bit 8 ow AND 255) + ftKernMax h)
                ((ftFRectHeight h - descent) - (bot + 1)),
              BITMAP]
            @ rows @ [ENDCHAR])
     }
   }"

text \<open>\<^verbatim>\<open>for (g = fg; g <= lg; g++)\<close>, on fuel as in \<open>FontInfo_glyphs\<close>.\<close>

fun dump_glyphs ::
  "nat \<Rightarrow> env \<Rightarrow> mem \<Rightarrow> mem \<Rightarrow> font_header \<Rightarrow> int \<Rightarrow> bdf_line list option" where
  "dump_glyphs 0 e fp bp h g = None"
| "dump_glyphs (Suc fuel) e fp bp h g =
    (if g \<le> ftLastChar h then do {
       ls \<leftarrow> dump_glyph e fp bp h g;
       rest \<leftarrow> dump_glyphs fuel e fp bp h (next_g g);
       Some (ls @ rest)
     }
     else Some [])"

text \<open>
  Lines 451-464, the header of the document, from the results of \<^verbatim>\<open>FontInfo\<close>
  (\<open>t\<close>, \<open>l\<close>, \<open>b\<close>, \<open>r\<close> are the locals \<^verbatim>\<open>top\<close>, \<^verbatim>\<open>left\<close>, \<^verbatim>\<open>bot\<close>, \<^verbatim>\<open>right\<close>).
\<close>

definition header_lines ::
  "mem \<Rightarrow> font_header \<Rightarrow> string \<Rightarrow> int \<Rightarrow> int \<Rightarrow> font_info \<Rightarrow> bdf_line list option" where
  "header_lines fp h name style sz info =
    (case info of
       NotStored \<Rightarrow> None
     | Stored t l b r ng \<Rightarrow> do {
         ascent \<leftarrow> toshort fp 18;
         descent \<leftarrow> toshort fp 20;
         Some [STARTFONT,
               FONT name (FontStyleName style) sz,
               SIZE sz DEVXRES DEVYRES,
               FONTBOUNDINGBOX ((r - l) + 1) ((b - t) + 1) (ftKernMax h)
                 ((ftFRectHeight h - descent) - (b + 1)),
               STARTPROPERTIES,
               FONT_ASCENT ascent,
               FONT_DESCENT descent,
               ENDPROPERTIES,
               CHARS ng]
       })"

text \<open>
  Everything written to \<^verbatim>\<open>fout\<close> between \<^verbatim>\<open>fopen\<close> and \<^verbatim>\<open>fclose\<close> (lines 445-542).
  \<^verbatim>\<open>FontDump\<close> reads the five results of \<^verbatim>\<open>FontInfo\<close> from locals it never
  initialised, so a call of \<^verbatim>\<open>FontInfo\<close> that stored nothing leaves no defined value.
\<close>

definition FontDump_doc ::
  "nat \<Rightarrow> env \<Rightarrow> mem \<Rightarrow> font_header \<Rightarrow> string \<Rightarrow> int \<Rightarrow> int \<Rightarrow> (font_info \<times> bdf_line list) option" where
  "FontDump_doc fuel e fp h name style sz = do {
     info \<leftarrow> FontInfo fuel e fp;
     hdr \<leftarrow> header_lines fp h name style sz info;
     bp \<leftarrow> load_bp e fp h;
     gp \<leftarrow> alloca_zero (ftFRectWidth h * ftFRectHeight h);
     glyphs \<leftarrow> dump_glyphs fuel e fp bp h (ftFirstChar h);
     Some (info, hdr @ glyphs @ [ENDFONT])
   }"

text \<open>
  The world outside the program: the files by name, and what was written to the standard
  output and the standard error.
\<close>

record world =
  files :: "string \<rightharpoonup> string"
  stdout :: string
  stderr :: string

definition bdf_name :: "string \<Rightarrow> int \<Rightarrow> int \<Rightarrow> string" where
  "bdf_name name style sz = name @ FontStyleName style @ ''-'' @ printf_d sz"

definition dquote :: char where
  "dquote = CHR 0x22"

definition cant_create_msg :: "env \<Rightarrow> string \<Rightarrow> string" where
  "cant_create_msg e fname =
    progname e @ '': can'' @ [CHR 0x27] @ ''t create output file '' @ [dquote] @ fname
      @ [dquote, newline]"

definition dumping_msg :: "int \<Rightarrow> string \<Rightarrow> int \<Rightarrow> int \<Rightarrow> string" where
  "dumping_msg ng name style sz =
    ''Dumping '' @ printf_d ng @ '' glyphs to '' @ [dquote] @ bdf_name name style sz
      @ ''.bdf'' @ [dquote, newline]"

definition glyph_count :: "font_info \<Rightarrow> int" where
  "glyph_count info = (case info of NotStored \<Rightarrow> 0 | Stored t l b r ng \<Rightarrow> ng)"

text \<open>
  \<^verbatim>\<open>FontDump (fp, name, style, size)\<close>: the value returned and the world it leaves. A
  null pointer is \<open>None\<close>. The file name is printed into \<^verbatim>\<open>char fname [128]\<close>, which
  holds 127 characters and the terminator.
\<close>

definition FontDump ::
  "nat \<Rightarrow> env \<Rightarrow> world \<Rightarrow> mem option \<Rightarrow> string option \<Rightarrow> int \<Rightarrow> int \<Rightarrow> (int \<times> world) option" where
  "FontDump fuel e w fp name style sz =
    (case fp of
       None \<Rightarrow> Some (1, w)
     | Some fp \<Rightarrow>
        (case name of
           None \<Rightarrow> Some (1, w)
         | Some name \<Rightarrow>
            if sz = 0 then Some (1, w)
            else do {
              h \<leftarrow> read_header fp;
              if ftLastChar h = ftFirstChar h then Some (1, w)
              else
                let fname = bdf_name name style sz @ ''.bdf'' in
                if 128 \<le> length fname then None
                else if \<not> can_create e fname then
                  Some (0, w \<lparr> stderr := stderr w @ cant_create_msg e fname \<rparr>)
                else do {
                  (info, doc) \<leftarrow> FontDump_doc fuel e fp h name style sz;
                  let w1 = (if quiet e then w
                            else w \<lparr> stdout := stdout w
                                   @ dumping_msg (glyph_count info) name style sz \<rparr>);
                  Some (1, w1 \<lparr> files := (files w1)(fname \<mapsto> concat (map render doc)) \<rparr>)
                }
            }))"

subsection \<open>Concrete resources\<close>

text \<open>
  The scenario of the specification: \<^verbatim>\<open>firstChar\<close> = 65 ('A'), \<^verbatim>\<open>lastChar\<close> = 66 ('B'),
  height 1, one word per row, rectangle width 4, the bitmap word \<^verbatim>\<open>0xA000\<close>; glyph A
  spans columns 0 to 3, glyph B has two equal location entries, and the offset/width
  entry of A is \<^verbatim>\<open>0x0008\<close> (advance width 8). The header is followed by the image
  (2 bytes), the location table (4 entries: 0, 4, 4, 4) and the offset/width table.
\<close>

definition scenario_font :: mem where
  "scenario_font =
    [0, 0,  0, 65,  0, 66,  0, 8,  0, 0,  0, 0,  0, 4,  0, 1,  0, 0,  0, 1,  0, 0,  0, 0,  0, 1,
     0xA0, 0,
     0, 0,  0, 4,  0, 4,  0, 4,
     0, 8,  0, 0,  0, 0]"

definition scenario_header :: font_header where
  "scenario_header =
    \<lparr> ftFirstChar = 65, ftLastChar = 66, ftKernMax = 0, ftFRectWidth = 4,
      ftFRectHeight = 1, ftOWTLoc = 0, ftRowWords = 1 \<rparr>"


text \<open>
  A resource with \<^verbatim>\<open>firstChar\<close> = \<^verbatim>\<open>lastChar\<close> = 65: the glyph A of the scenario and
  nothing else.
\<close>

definition single_font :: mem where
  "single_font =
    [0, 0,  0, 65,  0, 65,  0, 8,  0, 0,  0, 0,  0, 4,  0, 1,  0, 0,  0, 1,  0, 0,  0, 0,  0, 1,
     0xA0, 0,
     0, 0,  0, 4,  0, 4,
     0, 8,  0, 0]"

definition single_header :: font_header where
  "single_header =
    \<lparr> ftFirstChar = 65, ftLastChar = 65, ftKernMax = 0, ftFRectWidth = 4,
      ftFRectHeight = 1, ftOWTLoc = 0, ftRowWords = 1 \<rparr>"

text \<open>
  A big-endian host with the resource at an even address, where every file can be
  created; the same on a little-endian host; and a world with no files.
\<close>

definition host_be :: env where
  "host_be = \<lparr> big_endian = True, odd_base = False, quiet = False,
               progname = ''mac2bdf'', can_create = (\<lambda>fname. True) \<rparr>"

definition host_le :: env where
  "host_le = host_be \<lparr> big_endian := False \<rparr>"

definition world0 :: world where
  "world0 = \<lparr> files = Map.empty, stdout = [], stderr = [] \<rparr>"

text \<open>The big-endian host with the resource at an odd address.\<close>

definition host_be_odd :: env where
  "host_be_odd = host_be \<lparr> odd_base := True \<rparr>"



text \<open>What a call of \<^verbatim>\<open>FontDump\<close> returned, and a file of the world it left.\<close>

definition returned :: "(int \<times> world) option \<Rightarrow> int option" where
  "returned res = map_option fst res"

definition file_after :: "(int \<times> world) option \<Rightarrow> string \<Rightarrow> string option" where
  "file_after res fname = (case res of None \<Rightarrow> None | Some rw \<Rightarrow> files (snd rw) fname)"

definition stdout_after :: "(int \<times> world) option \<Rightarrow> string option" where
  "stdout_after res = map_option (\<lambda>rw. stdout (snd rw)) res"



subsection \<open>The terms of the specification: bits, bytes, rows and ink\<close>

text \<open>
  A bit is the integer 0 or 1. \<open>bits_value\<close> reads a list of bits as a number, most
  significant bit first; \<open>bytes_of_bits\<close> cuts a row of bits into bytes of eight, the
  last one padded on the right with zero bits; \<open>hex_pair\<close> is a byte as two
  lower-case hexadecimal digits, and \<open>row_hex\<close> a row of bits as the pairs of its bytes.
\<close>

definition is_bit :: "int \<Rightarrow> bool" where
  "is_bit b = (b = 0 \<or> b = 1)"

fun bits_value :: "int list \<Rightarrow> int" where
  "bits_value [] = 0"
| "bits_value (b # bs) = b * 2 ^ length bs + bits_value bs"

fun bytes_of_bits :: "int list \<Rightarrow> int list" where
  "bytes_of_bits bs =
    (if bs = [] then [] else bits_value (take 8 (bs @ replicate 7 0)) # bytes_of_bits (drop 8 bs))"

declare bytes_of_bits.simps [simp del]

definition hex_pair :: "int \<Rightarrow> string" where
  "hex_pair v = [hex_lower ! nat (v div 16), hex_lower ! nat (v mod 16)]"

definition row_hex :: "int list \<Rightarrow> string" where
  "row_hex bs = concat (map hex_pair (bytes_of_bits bs))"

text \<open>
  The decoder of a bitmap row: every hexadecimal digit (of either case) up to the end of
  the line gives four bits, most significant first, and the bits beyond the span of the
  glyph are dropped.
\<close>

fun nat_bits :: "nat \<Rightarrow> int \<Rightarrow> int list" where
  "nat_bits 0 v = []"
| "nat_bits (Suc n) v = nat_bits n (v div 2) @ [v mod 2]"

definition hex_digit_value :: "char \<Rightarrow> int" where
  "hex_digit_value c =
    int (length (takeWhile (\<lambda>d. d \<noteq> c) (if c \<in> set hex_lower then hex_lower else hex_upper)))"

definition decode_hex :: "string \<Rightarrow> int list" where
  "decode_hex s = concat (map (\<lambda>c. nat_bits 4 (hex_digit_value c)) s)"

definition decode_row :: "int \<Rightarrow> string \<Rightarrow> int list" where
  "decode_row span text = take (nat span) (decode_hex (takeWhile (\<lambda>c. c \<noteq> newline) text))"

text \<open>
  The raster \<^verbatim>\<open>gp\<close> read as a grid of \<open>wd\<close> columns: the pixel of row \<open>i\<close> and column
  \<open>j\<close>, the first \<open>span\<close> pixels of a row, whether a row has ink, and the positions
  of the pixels that are on in the rows \<open>tp\<close> to \<open>bt\<close>.
\<close>

definition cell :: "mem \<Rightarrow> int \<Rightarrow> int \<Rightarrow> int \<Rightarrow> int" where
  "cell gp wd i j = uint (gp ! nat (i * wd + j))"

definition row_bits :: "mem \<Rightarrow> int \<Rightarrow> int \<Rightarrow> int \<Rightarrow> int list" where
  "row_bits gp wd span i = map (cell gp wd i) [0..span - 1]"

definition row_has_ink :: "mem \<Rightarrow> int \<Rightarrow> int \<Rightarrow> bool" where
  "row_has_ink gp wd i = list_ex (\<lambda>j. cell gp wd i j \<noteq> 0) [0..wd - 1]"

definition raster_bits :: "mem \<Rightarrow> bool" where
  "raster_bits gp = list_all (\<lambda>v. v = 0 \<or> v = 1) gp"

definition raster_on_pixels :: "mem \<Rightarrow> int \<Rightarrow> int \<Rightarrow> int \<Rightarrow> (int \<times> int) list" where
  "raster_on_pixels gp wd tp bt =
    concat (map (\<lambda>i. map (Pair i) (filter (\<lambda>j. cell gp wd i j \<noteq> 0) [0..wd - 1])) [tp..bt])"

text \<open>
  The same positions read back from the text of the bitmap rows, the first row of the
  text being row \<open>tp\<close>.
\<close>

definition decoded_on_pixels :: "int \<Rightarrow> int \<Rightarrow> string list \<Rightarrow> (int \<times> int) list" where
  "decoded_on_pixels span tp texts =
    concat (map (\<lambda>(i, text).
        map (Pair i) (filter (\<lambda>j. decode_row span text ! nat j \<noteq> 0) [0..span - 1]))
      (zip [tp..tp + int (length texts) - 1] texts))"

text \<open>The text of a bitmap row line; the other lines carry none.\<close>

fun hexrow_text :: "bdf_line \<Rightarrow> string" where
  "hexrow_text (HEXROW s) = s"
| "hexrow_text l = []"

text \<open>
  Bit \<open>15 - j mod 16\<close> of the 16-bit word, most significant byte first, at index
  \<open>j div 16\<close> of row \<open>i\<close> of the packed image that follows the header in the
  resource.
\<close>

definition image_bit :: "mem \<Rightarrow> font_header \<Rightarrow> int \<Rightarrow> int \<Rightarrow> int option" where
  "image_bit fp h i j =
    map_option (\<lambda>w. if bit w (nat (15 - j mod 16)) then 1 else 0)
      (toushort fp (bitImage + 2 * (i * ftRowWords h + j div 16)))"

text \<open>
  The state of the row loop of lines 527-533 turned into the text of the row, as lines
  534-538 do (without the newline).
\<close>

definition finish_row :: "int \<Rightarrow> int \<times> string \<Rightarrow> string" where
  "finish_row j st =
    (if j AND 7 \<noteq> 0 then snd st @ printf_02x (push_bit (nat (7 - j mod 8)) (fst st))
     else snd st)"

text \<open>
  A document in which every \<^verbatim>\<open>SWIDTH\<close> line is followed at once by a \<^verbatim>\<open>DWIDTH\<close> line,
  the first number of the \<^verbatim>\<open>SWIDTH\<close> line is 720 times the first number of that
  \<^verbatim>\<open>DWIDTH\<close> line, and the second number of both is 0.
\<close>

definition swidth_followed :: "bdf_line \<Rightarrow> bdf_line list \<Rightarrow> bool" where
  "swidth_followed l ls =
    (case l of
       SWIDTH x y \<Rightarrow>
        (case ls of
           [] \<Rightarrow> False
         | l' # rest \<Rightarrow>
            (case l' of DWIDTH x' y' \<Rightarrow> x = x' * 720 \<and> y = 0 \<and> y' = 0 | _ \<Rightarrow> False))
     | _ \<Rightarrow> True)"

primrec widths_paired :: "bdf_line list \<Rightarrow> bool" where
  "widths_paired [] = True"
| "widths_paired (l # ls) = (swidth_followed l ls \<and> widths_paired ls)"




section \<open>Proofs\<close>

subsection \<open>The concrete resources, evaluated\<close>

lemmas eval_defs = toushort_def toshort_def rd_def store_def to_card16_def to_int16_def
  locTable_def owTable_def bitImage_def load_bp_def bp_word_def pixel_def alloca_zero_def
  find_top_bot_def find_left_right_def next_g_def glyph_raster_def pack_row_def
  printf_02x_def zero_pad2_def hex_lower_def hex_digits.simps upto.simps

lemma scenario_header_read: "read_header scenario_font = Some scenario_header"
  by (simp add: read_header_def eval_defs scenario_font_def scenario_header_def)


lemma single_header_read: "read_header single_font = Some single_header"
  by (simp add: read_header_def eval_defs single_font_def single_header_def)

lemma scenario_glyph_A:
  "dump_glyph host_be scenario_font (drop 26 scenario_font) scenario_header 65 =
    Some [STARTCHAR 65, ENCODING 65, SWIDTH 5760 0, DWIDTH 8 0, BBX 4 1 0 0, BITMAP,
          HEXROW (''a0'' @ [newline]), ENDCHAR]"
  by (simp add: dump_glyph_def eval_defs scenario_header_def scenario_font_def host_be_def)

lemma scenario_glyph_B:
  "dump_glyph host_be scenario_font (drop 26 scenario_font) scenario_header 66 = Some []"
  by (simp add: dump_glyph_def eval_defs scenario_header_def scenario_font_def host_be_def)

lemma scenario_fields:
  "ftFirstChar scenario_header = 65" "ftLastChar scenario_header = 66"
  "ftKernMax scenario_header = 0" "ftFRectWidth scenario_header = 4"
  "ftFRectHeight scenario_header = 1" "ftRowWords scenario_header = 1"
  by (simp_all add: scenario_header_def)

lemma scenario_glyphs:
  "dump_glyphs 3 host_be scenario_font (drop 26 scenario_font) scenario_header 65 =
    Some [STARTCHAR 65, ENCODING 65, SWIDTH 5760 0, DWIDTH 8 0, BBX 4 1 0 0, BITMAP,
          HEXROW (''a0'' @ [newline]), ENDCHAR]"
  by (simp add: numeral_3_eq_3 scenario_glyph_A scenario_glyph_B next_g_def to_card16_def scenario_fields)

lemma scenario_FontInfo: "FontInfo 3 host_be scenario_font = Some (Stored 0 0 0 2 1)"
  by (simp add: FontInfo_def scenario_header_read)
     (simp add: numeral_3_eq_3 FontInfo_glyph_def eval_defs scenario_header_def scenario_font_def host_be_def)


lemma scenario_doc:
  "FontDump_doc 3 host_be scenario_font scenario_header name style sz =
    Some (Stored 0 0 0 2 1,
      [STARTFONT, FONT name (FontStyleName style) sz, SIZE sz 72 72, FONTBOUNDINGBOX 3 1 0 0,
       STARTPROPERTIES, FONT_ASCENT 1, FONT_DESCENT 0, ENDPROPERTIES, CHARS 1,
       STARTCHAR 65, ENCODING 65, SWIDTH 5760 0, DWIDTH 8 0, BBX 4 1 0 0, BITMAP,
       HEXROW (''a0'' @ [newline]), ENDCHAR, ENDFONT])"
proof -
  have bp: "load_bp host_be scenario_font scenario_header = Some (drop 26 scenario_font)"
    by (simp add: load_bp_def host_be_def bitImage_def)
  have hdr: "header_lines scenario_font scenario_header name style sz (Stored 0 0 0 2 1) =
    Some [STARTFONT, FONT name (FontStyleName style) sz, SIZE sz 72 72, FONTBOUNDINGBOX 3 1 0 0,
       STARTPROPERTIES, FONT_ASCENT 1, FONT_DESCENT 0, ENDPROPERTIES, CHARS 1]"
    by (simp add: header_lines_def eval_defs scenario_header_def scenario_font_def DEVXRES_def DEVYRES_def)
  have gp: "alloca_zero (ftFRectWidth scenario_header * ftFRectHeight scenario_header) \<noteq> None"
    by (simp add: alloca_zero_def scenario_header_def)
  show ?thesis
    using gp by (auto simp: FontDump_doc_def scenario_FontInfo hdr bp scenario_fields scenario_glyphs)
qed


subsection \<open>The control flow of \<^verbatim>\<open>FontDump\<close> and \<^verbatim>\<open>FontInfo\<close>\<close>

lemma FontDump_usage:
  "fp = None \<or> name = None \<or> sz = 0 \<Longrightarrow> FontDump fuel e w fp name style sz = Some (1, w)"
  by (auto simp: FontDump_def split: option.splits)

lemma FontDump_equal_chars:
  "read_header fp = Some h \<Longrightarrow> ftLastChar h = ftFirstChar h \<Longrightarrow>
   FontDump fuel e w (Some fp) name style sz = Some (1, w)"
  by (auto simp: FontDump_def split: option.splits)


lemma FontDump_created:
  "read_header fp = Some h \<Longrightarrow> ftLastChar h \<noteq> ftFirstChar h \<Longrightarrow> sz \<noteq> 0 \<Longrightarrow>
   length (bdf_name name style sz @ ''.bdf'') < 128 \<Longrightarrow>
   can_create e (bdf_name name style sz @ ''.bdf'') \<Longrightarrow>
   FontDump_doc fuel e fp h name style sz = Some (info, doc) \<Longrightarrow>
   FontDump fuel e w (Some fp) (Some name) style sz
     = Some (1, (if quiet e then w
                 else w \<lparr> stdout := stdout w @ dumping_msg (glyph_count info) name style sz \<rparr>)
                \<lparr> files := (files w)(bdf_name name style sz @ ''.bdf''
                              \<mapsto> concat (map render doc)) \<rparr>)"
  by (auto simp: FontDump_def Let_def split: option.splits)


lemma FontInfo_equal_chars:
  "read_header fp = Some h \<Longrightarrow> ftLastChar h = ftFirstChar h \<Longrightarrow>
   FontInfo fuel e fp = Some NotStored"
  by (simp add: FontInfo_def)

lemma host_be_fields:
  "big_endian host_be" "\<not> odd_base host_be" "\<not> quiet host_be" "can_create host_be fname"
  by (simp_all add: host_be_def)


lemma scenario_FontDump:
  assumes "sz \<noteq> 0" "length (bdf_name name style sz @ ''.bdf'') < 128"
  shows "FontDump 3 host_be world0 (Some scenario_font) (Some name) style sz =
    Some (1, world0 \<lparr> stdout := dumping_msg 1 name style sz,
        files := [bdf_name name style sz @ ''.bdf'' \<mapsto> concat (map render
          [STARTFONT, FONT name (FontStyleName style) sz, SIZE sz 72 72,
           FONTBOUNDINGBOX 3 1 0 0, STARTPROPERTIES, FONT_ASCENT 1, FONT_DESCENT 0,
           ENDPROPERTIES, CHARS 1, STARTCHAR 65, ENCODING 65, SWIDTH 5760 0, DWIDTH 8 0,
           BBX 4 1 0 0, BITMAP, HEXROW (''a0'' @ [newline]), ENDCHAR, ENDFONT])] \<rparr>)"
  using FontDump_created [OF scenario_header_read _ assms host_be_fields(4) scenario_doc,
      of world0]
  by (simp add: scenario_fields host_be_fields world0_def glyph_count_def)

lemma test_name: "bdf_name ''Test'' 0 12 = ''Test-12''" "bdf_name '''' 0 12 = ''-12''"
  by (simp_all add: bdf_name_def FontStyleName_def printf_d_def dec_chars_def dec_digits.simps)





text \<open>
  C2 (the code at the failing input). On \<open>single_font\<close>, whose first and last character
  codes are both 65, \<^verbatim>\<open>FontInfo\<close> returns at line 271 having stored nothing through
  its five result parameters: no zero count and no empty box reach the caller. (The
  other half of the claim holds: \<^verbatim>\<open>FontDump\<close> returns 1 and the world is unchanged.)
\<close>

theorem FontInfo_equal_chars_stores_nothing:
  "FontInfo fuel e single_font = Some NotStored
   \<and> FontDump fuel e w (Some single_font) name style sz = Some (1, w)"
proof
  show "FontInfo fuel e single_font = Some NotStored"
    by (rule FontInfo_equal_chars [OF single_header_read]) (simp add: single_header_def)
  show "FontDump fuel e w (Some single_font) name style sz = Some (1, w)"
    by (rule FontDump_equal_chars [OF single_header_read]) (simp add: single_header_def)
qed

text \<open>
  C8 (as stated, refuted). With the empty family name, a non-null pointer to an empty
  string, \<^verbatim>\<open>FontDump\<close> on the scenario resource is no usage error: it returns 1 and
  has created the file \<^verbatim>\<open>-12.bdf\<close>.
\<close>

theorem empty_name_usage_error_counterexample:
  "returned (FontDump 3 host_be world0 (Some scenario_font) (Some []) 0 12) = Some 1
   \<and> file_after (FontDump 3 host_be world0 (Some scenario_font) (Some []) 0 12) ''-12.bdf''
       = Some (concat (map render
          [STARTFONT, FONT [] [] 12, SIZE 12 72 72, FONTBOUNDINGBOX 3 1 0 0,
           STARTPROPERTIES, FONT_ASCENT 1, FONT_DESCENT 0, ENDPROPERTIES, CHARS 1,
           STARTCHAR 65, ENCODING 65, SWIDTH 5760 0, DWIDTH 8 0, BBX 4 1 0 0, BITMAP,
           HEXROW (''a0'' @ [newline]), ENDCHAR, ENDFONT]))"
  by (simp add: scenario_FontDump test_name returned_def file_after_def FontStyleName_def)

text \<open>
  C8 (as amended). If the font pointer or the family name is null, or the point size is
  zero, \<^verbatim>\<open>FontDump\<close> returns 1 at once, whatever the resource holds and with no fuel at
  all, and the world (files, standard output, standard error) is exactly as before:
  nothing is created and nothing is reported.
\<close>

theorem FontDump_null_or_zero_size:
  "fp = None \<or> name = None \<or> sz = 0 \<Longrightarrow> FontDump fuel e w fp name style sz = Some (1, w)"
  by (rule FontDump_usage)

theorem FontDump_null_or_zero_size_witness:
  "FontDump 0 host_be world0 None (Some ''Test'') 0 12 = Some (1, world0)
   \<and> FontDump 0 host_be world0 (Some scenario_font) None 0 12 = Some (1, world0)
   \<and> FontDump 0 host_be world0 (Some scenario_font) (Some ''Test'') 0 0 = Some (1, world0)"
  using FontDump_null_or_zero_size [of None "Some ''Test''" 12 0 host_be world0 0]
    FontDump_null_or_zero_size [of "Some scenario_font" None 12 0 host_be world0 0]
    FontDump_null_or_zero_size [of "Some scenario_font" "Some ''Test''" 0 0 host_be world0 0]
  by simp

subsection \<open>The Style Namer\<close>




subsection \<open>Packing a row into hexadecimal bytes\<close>

lemma bits_value_snoc: "bits_value (bs @ [b]) = 2 * bits_value bs + b"
  by (induction bs) (simp_all add: algebra_simps)

lemma bits_value_append:
  "bits_value (xs @ ys) = bits_value xs * 2 ^ length ys + bits_value ys"
  by (induction xs) (simp_all add: algebra_simps power_add)

lemma bits_value_zeros: "bits_value (replicate n 0) = 0"
  by (induction n) simp_all

lemma bits_value_append_zeros: "bits_value (bs @ replicate n 0) = bits_value bs * 2 ^ n"
  by (simp add: bits_value_append bits_value_zeros)

lemma bits_value_bounds: "list_all is_bit bs \<Longrightarrow> 0 \<le> bits_value bs \<and> bits_value bs < 2 ^ length bs"
proof (induction bs rule: rev_induct)
  case Nil
  then show ?case by simp
next
  case (snoc b bs)
  then show ?case by (auto simp: bits_value_snoc is_bit_def)
qed

lemma printf_02x_byte:
  assumes "0 \<le> v" "v < 256"
  shows "printf_02x v = hex_pair v"
proof -
  have tb: "take_bit 32 v = v"
    using assms by (simp add: take_bit_int_eq_self)
  show ?thesis
  proof (cases "v < 16")
    case True
    then have "nat v < 16" using assms by linarith
    then have "hex_digits hex_lower (nat v) = [hex_lower ! nat v]"
      by (subst hex_digits.simps) simp
    moreover have "hex_lower ! nat (v div 16) = CHR ''0''" "v mod 16 = v"
      using True assms by (simp_all add: hex_lower_def)
    ultimately show ?thesis
      by (simp add: printf_02x_def tb zero_pad2_def hex_pair_def)
  next
    case False
    have d: "nat v div 16 < 16" using assms by simp
    have "\<not> nat v < 16" using False assms by linarith
    then have "hex_digits hex_lower (nat v) = hex_digits hex_lower (nat v div 16) @ [hex_lower ! (nat v mod 16)]"
      by (subst hex_digits.simps) simp
    also have "hex_digits hex_lower (nat v div 16) = [hex_lower ! (nat v div 16)]"
      using d by (subst hex_digits.simps) simp
    finally show ?thesis
      using assms by (simp add: printf_02x_def tb zero_pad2_def hex_pair_def nat_div_distrib nat_mod_distrib)
  qed
qed

lemma and_7_eq_mod_8: "j AND 7 = j mod 8" for j :: int
proof -
  have "j AND mask 3 = j mod 2 ^ 3"
    by (simp add: take_bit_eq_mask [symmetric] take_bit_eq_mod)
  moreover have "mask 3 = (7::int)"
    by (simp add: mask_eq_exp_minus_1)
  ultimately show ?thesis by simp
qed

lemma even_or_bit: "is_bit c \<Longrightarrow> (2 * v) OR c = 2 * v + c" for v :: int
  by (auto simp: is_bit_def or_one_eq)

lemma row_hex_Nil: "row_hex [] = []"
  by (simp add: row_hex_def bytes_of_bits.simps)

lemma row_hex_partial:
  assumes "cur \<noteq> []" "length cur \<le> 8"
  shows "row_hex cur = hex_pair (bits_value cur * 2 ^ (8 - length cur))"
proof -
  have tk: "take 8 (cur @ replicate 7 0) = cur @ replicate (8 - length cur) 0"
    using assms by (cases cur) (simp_all add: min_def)
  have dr: "drop 8 cur = []" using assms by simp
  have "bytes_of_bits cur = bits_value (take 8 (cur @ replicate 7 0)) # bytes_of_bits (drop 8 cur)"
    using assms(1) by (subst bytes_of_bits.simps) simp
  also have "bytes_of_bits (drop 8 cur) = []"
    unfolding dr by (subst bytes_of_bits.simps) simp
  finally have b: "bytes_of_bits cur = [bits_value (take 8 (cur @ replicate 7 0))]" .
  from b [unfolded tk] show ?thesis
    by (simp add: row_hex_def bits_value_append_zeros)
qed

lemma row_hex_full:
  assumes "length cur = 8"
  shows "row_hex (cur @ rest) = hex_pair (bits_value cur) @ row_hex rest"
proof -
  have "cur @ rest \<noteq> []" using assms by auto
  then have "bytes_of_bits (cur @ rest)
      = bits_value (take 8 ((cur @ rest) @ replicate 7 0)) # bytes_of_bits (drop 8 (cur @ rest))"
    by (subst bytes_of_bits.simps) simp
  then show ?thesis
    using assms by (simp add: row_hex_def)
qed

lemma pack_cols_inv:
  assumes "length cur < 8" "0 \<le> j0" "j0 mod 8 = int (length cur)" "list_all is_bit cur"
    and "\<forall>j. j0 \<le> j \<and> j \<le> j1 \<longrightarrow>
           0 \<le> i * wd + j \<and> i * wd + j < int (length gp) \<and> is_bit (cell gp wd i j)"
  shows "\<exists>st. pack_cols gp wd i [j0..j1] (2 * bits_value cur, out) = Some st
          \<and> finish_row (max j0 (j1 + 1)) st = out @ row_hex (cur @ map (cell gp wd i) [j0..j1])"
  using assms
proof (induction "nat (j1 + 1 - j0)" arbitrary: j0 cur out)
  case 0
  then have emp: "[j0..j1] = []" by simp
  have mx: "max j0 (j1 + 1) = j0" using 0 by simp
  show ?case
  proof (cases "cur = []")
    case True
    with 0 show ?thesis
      by (simp add: emp mx finish_row_def and_7_eq_mod_8 row_hex_Nil)
  next
    case False
    have bnd: "0 \<le> bits_value cur \<and> bits_value cur < 2 ^ length cur"
      using 0 by (intro bits_value_bounds)
    have sh: "push_bit (nat (7 - int (length cur))) (2 * bits_value cur)
                = bits_value cur * 2 ^ (8 - length cur)"
    proof -
      have "nat (7 - int (length cur)) = 7 - length cur" using 0 by simp
      moreover have "Suc (7 - length cur) = 8 - length cur" using 0 by simp
      ultimately show ?thesis
        by (simp add: push_bit_eq_mult flip: power_Suc)
    qed
    have "bits_value cur * 2 ^ (8 - length cur) < 2 ^ length cur * 2 ^ (8 - length cur)"
      using bnd by simp
    also have "\<dots> = (256::int)"
      using 0 by (simp flip: power_add)
    finally have lt: "bits_value cur * 2 ^ (8 - length cur) < 256" .
    have ge: "0 \<le> bits_value cur * 2 ^ (8 - length cur)" using bnd by simp
    have nz: "j0 mod 8 \<noteq> 0" using False 0 by simp
    show ?thesis
      using False 0 nz
      by (simp add: emp mx finish_row_def and_7_eq_mod_8 sh printf_02x_byte [OF ge lt]
            row_hex_partial)
  qed
next
  case (Suc n)
  then have le: "j0 \<le> j1" by linarith
  then have up: "[j0..j1] = j0 # [j0 + 1..j1]" by (rule upto_rec1)
  have mx: "max j0 (j1 + 1) = j1 + 1" "max (j0 + 1) (j1 + 1) = j1 + 1" using le by simp_all
  from Suc.prems(5) le have c0: "0 \<le> i * wd + j0" "i * wd + j0 < int (length gp)"
    "is_bit (cell gp wd i j0)" by auto
  let ?c = "cell gp wd i j0"
  have rdc: "rd gp (i * wd + j0) = Some (gp ! nat (i * wd + j0))"
    using c0 by (simp add: rd_def)
  have orc: "(2 * bits_value cur) OR ?c = bits_value (cur @ [?c])"
    using c0(3) by (simp add: even_or_bit bits_value_snoc)
  have n: "n = nat (j1 + 1 - (j0 + 1))" using Suc.hyps(2) by linarith
  have cells': "\<forall>j. j0 + 1 \<le> j \<and> j \<le> j1 \<longrightarrow>
           0 \<le> i * wd + j \<and> i * wd + j < int (length gp) \<and> is_bit (cell gp wd i j)"
    using Suc.prems(5) by auto
  have bits': "list_all is_bit (cur @ [?c])" using Suc.prems(4) c0(3) by simp
  show ?case
  proof (cases "j0 mod 8 = 7")
    case True
    then have len8: "length (cur @ [?c]) = 8" using Suc.prems(3) by simp
    have bnd: "0 \<le> bits_value (cur @ [?c]) \<and> bits_value (cur @ [?c]) < 2 ^ length (cur @ [?c])"
      using bits' by (rule bits_value_bounds)
    then have pf: "printf_02x (bits_value (cur @ [?c])) = hex_pair (bits_value (cur @ [?c]))"
      unfolding len8 by (intro printf_02x_byte) simp_all
    have m1: "(j0 + 1) mod 8 = int (length ([]::int list))"
    proof -
      have "(j0 + 1) mod 8 = (j0 mod 8 + 1) mod 8"
        by (simp add: mod_add_left_eq)
      then show ?thesis using True by simp
    qed
    from Suc.hyps(1) [OF n _ _ m1 _ cells', of "out @ hex_pair (bits_value (cur @ [?c]))"]
    obtain st where st: "pack_cols gp wd i [j0 + 1..j1] (0, out @ hex_pair (bits_value (cur @ [?c]))) = Some st"
      "finish_row (j1 + 1) st = (out @ hex_pair (bits_value (cur @ [?c]))) @ row_hex (map (cell gp wd i) [j0 + 1..j1])"
      using Suc.prems(2) by (auto simp: mx)
    have "row_hex (cur @ map (cell gp wd i) [j0..j1])
            = hex_pair (bits_value (cur @ [?c])) @ row_hex (map (cell gp wd i) [j0 + 1..j1])"
      using row_hex_full [OF len8, of "map (cell gp wd i) [j0 + 1..j1]"] by (simp add: up)
    then show ?thesis
      using st True by (simp add: up [of] rdc cell_def [symmetric] orc pf and_7_eq_mod_8 mx Let_def)
  next
    case False
    have r: "0 \<le> j0 mod 8" "j0 mod 8 < 8" by simp_all
    then have lt7: "length cur < 7" using False Suc.prems(3) by linarith
    have m1: "(j0 + 1) mod 8 = int (length (cur @ [?c]))"
    proof -
      have "(j0 + 1) mod 8 = (j0 mod 8 + 1) mod 8"
        by (simp add: mod_add_left_eq)
      also have "\<dots> = j0 mod 8 + 1" using r False by simp
      finally show ?thesis using Suc.prems(3) by simp
    qed
    from Suc.hyps(1) [OF n _ _ m1 bits' cells', of out]
    obtain st where st: "pack_cols gp wd i [j0 + 1..j1] (2 * bits_value (cur @ [?c]), out) = Some st"
      "finish_row (j1 + 1) st = out @ row_hex ((cur @ [?c]) @ map (cell gp wd i) [j0 + 1..j1])"
      using Suc.prems(2) lt7 by (auto simp: mx)
    then have "pack_cols gp wd i [j0 + 1..j1] (bits_value (cur @ [?c]) * 2, out) = Some st"
      by (simp add: mult.commute)
    with st(2) show ?thesis
      using False by (simp add: up [of] rdc cell_def [symmetric] orc and_7_eq_mod_8 mx Let_def)
  qed
qed

subsection \<open>Decoding a row\<close>

lemma pack_row_spec:
  assumes "\<forall>j. 0 \<le> j \<and> j < span \<longrightarrow>
           0 \<le> i * wd + j \<and> i * wd + j < int (length gp) \<and> is_bit (cell gp wd i j)"
  shows "pack_row gp wd span i = Some (row_hex (row_bits gp wd span i) @ [newline])"
proof -
  have cells: "\<forall>j. 0 \<le> j \<and> j \<le> span - 1 \<longrightarrow>
           0 \<le> i * wd + j \<and> i * wd + j < int (length gp) \<and> is_bit (cell gp wd i j)"
    using assms by auto
  from pack_cols_inv [of "[]" 0 "span - 1" i wd gp "[]", OF _ _ _ _ cells]
  obtain st where st: "pack_cols gp wd i [0..span - 1] (0, []) = Some st"
    "finish_row (max 0 span) st = row_hex (map (cell gp wd i) [0..span - 1])"
    by auto
  have mx: "(if 0 < span then span else 0) = max 0 span" by simp
  show ?thesis
    using st unfolding pack_row_def row_bits_def mx
    by (cases st) (auto simp: finish_row_def Let_def split: if_splits)
qed

lemma nat_bits_value: "list_all is_bit bs \<Longrightarrow> nat_bits (length bs) (bits_value bs) = bs"
proof (induction bs rule: rev_induct)
  case Nil
  then show ?case by simp
next
  case (snoc b bs)
  then have b: "b = 0 \<or> b = 1" by (simp add: is_bit_def)
  then have "(2 * bits_value bs + b) div 2 = bits_value bs" "(2 * bits_value bs + b) mod 2 = b"
    by auto
  with snoc show ?case by (simp add: bits_value_snoc)
qed

lemma nat_bits_split: "nat_bits (m + n) v = nat_bits m (v div 2 ^ n) @ nat_bits n v"
proof (induction n arbitrary: v)
  case 0
  then show ?case by simp
next
  case (Suc n)
  have "v div 2 div 2 ^ n = v div (2 * 2 ^ n)"
    by (simp add: zdiv_zmult2_eq)
  with Suc [of "v div 2"] show ?case by simp
qed

lemma nat_bits_mod: "nat_bits n (v mod 2 ^ n) = nat_bits n v"
proof (induction n arbitrary: v)
  case 0
  then show ?case by simp
next
  case (Suc n)
  have "v mod (2 * 2 ^ n) div 2 = (v div 2) mod 2 ^ n"
    by (metis mult.commute power_Suc2 div_exp_mod_exp_eq power_one_right diff_Suc_1 add.commute plus_1_eq_Suc)
  moreover have "v mod (2 * 2 ^ n) mod 2 = v mod 2"
    by (simp add: mod_mod_cancel)
  ultimately show ?case using Suc [of "v div 2"] by simp
qed

lemma hex_digit_value_lower:
  assumes "n < 16"
  shows "hex_lower ! n \<noteq> newline \<and> hex_digit_value (hex_lower ! n) = int n"
proof -
  from assms have "n \<in> set [0..<16]" by simp
  then have "n \<in> {0, 1, 2, 3, 4, 5, 6, 7, 8, 9, 10, 11, 12, 13, 14, 15}"
    by (simp add: upt_rec numeral_eq_Suc)
  then show ?thesis
    by (auto simp: hex_digit_value_def hex_lower_def newline_def)
qed

lemma decode_hex_pair:
  assumes "0 \<le> v" "v < 256"
  shows "decode_hex (hex_pair v) = nat_bits 8 v" "newline \<notin> set (hex_pair v)"
proof -
  have hi: "nat (v div 16) < 16" using assms by simp
  have lo: "nat (v mod 16) < 16" using assms by simp
  have "nat_bits 8 v = nat_bits 4 (v div 2 ^ 4) @ nat_bits 4 v"
    using nat_bits_split [of 4 4 v] by simp
  also have "nat_bits 4 v = nat_bits 4 (v mod 2 ^ 4)"
    by (simp only: nat_bits_mod)
  finally have "nat_bits 8 v = nat_bits 4 (v div 16) @ nat_bits 4 (v mod 16)"
    by simp
  then show "decode_hex (hex_pair v) = nat_bits 8 v"
    using hex_digit_value_lower [OF hi] hex_digit_value_lower [OF lo] assms
    by (simp add: decode_hex_def hex_pair_def del: nat_bits.simps)
  show "newline \<notin> set (hex_pair v)"
    using hex_digit_value_lower [OF hi] hex_digit_value_lower [OF lo]
    by (auto simp: hex_pair_def)
qed

lemma decode_row_hex:
  "list_all is_bit bs \<Longrightarrow>
   decode_hex (row_hex bs) = bs @ replicate ((8 - length bs mod 8) mod 8) 0
   \<and> newline \<notin> set (row_hex bs)"
proof (induction "length bs" arbitrary: bs rule: less_induct)
  case less
  show ?case
  proof (cases "length bs \<le> 8")
    case short: True
    show ?thesis
    proof (cases "bs = []")
      case True
      then show ?thesis by (simp add: row_hex_Nil decode_hex_def)
    next
      case False
      let ?p = "bs @ replicate (8 - length bs) 0"
      have bits: "list_all is_bit ?p" using less.prems by (auto simp: is_bit_def list_all_iff)
      have len: "length ?p = 8" using short by simp
      have v: "bits_value ?p = bits_value bs * 2 ^ (8 - length bs)"
        by (rule bits_value_append_zeros)
      from bits_value_bounds [OF bits] have bnd: "0 \<le> bits_value ?p" "bits_value ?p < 256"
        unfolding len by simp_all
      have "nat_bits 8 (bits_value ?p) = ?p"
        using nat_bits_value [OF bits] unfolding len .
      moreover have "(8 - length bs mod 8) mod 8 = 8 - length bs"
        using short False by (cases "length bs = 8") simp_all
      ultimately show ?thesis
        using decode_hex_pair [OF bnd] row_hex_partial [OF False short]
        by (simp add: v del: nat_bits.simps)
    qed
  next
    case long: False
    let ?hd = "take 8 bs" and ?tl = "drop 8 bs"
    have len: "length ?hd = 8" using long by simp
    have bs: "bs = ?hd @ ?tl" by simp
    have bits_hd: "list_all is_bit ?hd" and bits_tl: "list_all is_bit ?tl"
      using less.prems by (auto simp: list_all_iff dest: in_set_takeD in_set_dropD)
    from bits_value_bounds [OF bits_hd] have bnd: "0 \<le> bits_value ?hd" "bits_value ?hd < 256"
      unfolding len by simp_all
    have ih: "decode_hex (row_hex ?tl) = ?tl @ replicate ((8 - length ?tl mod 8) mod 8) 0
      \<and> newline \<notin> set (row_hex ?tl)"
      using long by (intro less.hyps bits_tl) simp
    have md: "length ?tl mod 8 = length bs mod 8"
      using long by (simp add: le_mod_geq)
    have rh: "row_hex bs = hex_pair (bits_value ?hd) @ row_hex ?tl"
      using row_hex_full [OF len, of ?tl] by simp
    have "nat_bits 8 (bits_value ?hd) = ?hd"
      using nat_bits_value [OF bits_hd] unfolding len .
    then show ?thesis
      using decode_hex_pair [OF bnd] ih
      unfolding rh md
      by (simp add: decode_hex_def del: nat_bits.simps)
  qed
qed

lemma decode_row_pack:
  assumes "list_all is_bit bs" "int (length bs) = max 0 span"
  shows "decode_row span (row_hex bs @ [newline]) = bs"
proof -
  from decode_row_hex [OF assms(1)]
  have d: "decode_hex (row_hex bs) = bs @ replicate ((8 - length bs mod 8) mod 8) 0"
    and n: "newline \<notin> set (row_hex bs)" by simp_all
  have "takeWhile (\<lambda>c. c \<noteq> newline) (row_hex bs @ [newline]) = row_hex bs"
    using n by (subst takeWhile_append2) auto
  moreover have "nat span = length bs" using assms(2) by linarith
  ultimately show ?thesis
    by (simp add: decode_row_def d)
qed

subsection \<open>The scan for top and bottom\<close>

lemma rd_Some: "rd m a = Some b \<Longrightarrow> 0 \<le> a \<and> a < int (length m) \<and> b = m ! nat a"
  by (auto simp: rd_def split: if_splits)

lemma store_Some:
  "store m a v = Some m' \<Longrightarrow> 0 \<le> a \<and> a < int (length m) \<and> m' = m[nat a := v]"
  by (auto simp: store_def split: if_splits)

lemma cell_nonzero: "cell gp wd i j \<noteq> 0 \<longleftrightarrow> gp ! nat (i * wd + j) \<noteq> 0"
  by (simp add: cell_def uint_0_iff)

lemma scan_tb_cols_spec:
  "scan_tb_cols gp wd i js tb = Some tb' \<Longrightarrow>
   tb' = (if \<exists>j\<in>set js. cell gp wd i j \<noteq> 0 then (min (fst tb) i, max (snd tb) i) else tb)"
proof (induction js arbitrary: tb)
  case Nil
  then show ?case by simp
next
  case (Cons j js)
  from Cons.prems obtain b where b: "rd gp (i * wd + j) = Some b"
    and rest: "scan_tb_cols gp wd i js
      ((if b \<noteq> 0 \<and> i < fst tb then i else fst tb), (if b \<noteq> 0 \<and> i > snd tb then i else snd tb)) = Some tb'"
    by (auto simp: Let_def split: Option.bind_splits)
  from rd_Some [OF b] have bz: "b \<noteq> 0 \<longleftrightarrow> cell gp wd i j \<noteq> 0"
    by (simp add: cell_nonzero)
  from Cons.IH [OF rest] show ?case
    unfolding bz by (auto simp: min_def max_def split: if_splits)
qed

lemma scan_tb_rows_spec:
  "scan_tb_rows gp wd rows tb = Some tb' \<Longrightarrow>
   fst tb' \<le> fst tb \<and> snd tb \<le> snd tb'
   \<and> (\<forall>i\<in>set rows. row_has_ink gp wd i \<longrightarrow> fst tb' \<le> i \<and> i \<le> snd tb')
   \<and> (fst tb' = fst tb \<or> fst tb' \<in> set rows \<and> row_has_ink gp wd (fst tb'))
   \<and> (snd tb' = snd tb \<or> snd tb' \<in> set rows \<and> row_has_ink gp wd (snd tb'))"
proof (induction rows arbitrary: tb)
  case Nil
  then show ?case by simp
next
  case (Cons i rows)
  from Cons.prems obtain tb1 where
    c: "scan_tb_cols gp wd i [0..wd - 1] tb = Some tb1" and
    r: "scan_tb_rows gp wd rows tb1 = Some tb'"
    by (auto split: Option.bind_splits)
  have tb1: "tb1 = (if row_has_ink gp wd i then (min (fst tb) i, max (snd tb) i) else tb)"
    using scan_tb_cols_spec [OF c] by (simp add: row_has_ink_def list_ex_iff)
  from Cons.IH [OF r] show ?case
    unfolding tb1 by (auto simp: min_def max_def split: if_splits)
qed

lemma find_top_bot_spec:
  assumes "find_top_bot gp wd ht = Some (tp, bt)"
  shows "\<forall>i. 0 \<le> i \<and> i < ht \<and> row_has_ink gp wd i \<longrightarrow> tp \<le> i \<and> i \<le> bt"
    and "(\<exists>i. 0 \<le> i \<and> i < ht \<and> row_has_ink gp wd i) \<longrightarrow>
           0 \<le> tp \<and> tp \<le> bt \<and> bt < ht \<and> row_has_ink gp wd tp \<and> row_has_ink gp wd bt"
    and "\<not> (\<exists>i. 0 \<le> i \<and> i < ht \<and> row_has_ink gp wd i) \<longrightarrow> tp = ht \<and> bt = 0"
proof -
  from scan_tb_rows_spec [OF assms [unfolded find_top_bot_def]]
  have a: "tp \<le> ht" "0 \<le> bt"
    and b: "\<forall>i. 0 \<le> i \<and> i < ht \<and> row_has_ink gp wd i \<longrightarrow> tp \<le> i \<and> i \<le> bt"
    and c: "tp = ht \<or> 0 \<le> tp \<and> tp < ht \<and> row_has_ink gp wd tp"
    and d: "bt = 0 \<or> 0 \<le> bt \<and> bt < ht \<and> row_has_ink gp wd bt"
    by auto
  show "\<forall>i. 0 \<le> i \<and> i < ht \<and> row_has_ink gp wd i \<longrightarrow> tp \<le> i \<and> i \<le> bt" by (rule b)
  show "(\<exists>i. 0 \<le> i \<and> i < ht \<and> row_has_ink gp wd i) \<longrightarrow>
           0 \<le> tp \<and> tp \<le> bt \<and> bt < ht \<and> row_has_ink gp wd tp \<and> row_has_ink gp wd bt"
  proof
    assume "\<exists>i. 0 \<le> i \<and> i < ht \<and> row_has_ink gp wd i"
    then obtain i where i: "0 \<le> i" "i < ht" "row_has_ink gp wd i" by blast
    with b have ti: "tp \<le> i" "i \<le> bt" by auto
    with i c have t: "0 \<le> tp \<and> tp < ht \<and> row_has_ink gp wd tp" by auto
    have "0 \<le> bt \<and> bt < ht \<and> row_has_ink gp wd bt"
    proof (cases "bt = 0")
      case True
      with ti i have "i = 0" by simp
      with i True show ?thesis by simp
    next
      case False
      with d show ?thesis by simp
    qed
    with t ti show "0 \<le> tp \<and> tp \<le> bt \<and> bt < ht \<and> row_has_ink gp wd tp \<and> row_has_ink gp wd bt"
      by simp
  qed
  show "\<not> (\<exists>i. 0 \<le> i \<and> i < ht \<and> row_has_ink gp wd i) \<longrightarrow> tp = ht \<and> bt = 0"
    using c d by auto
qed

subsection \<open>The raster of one glyph\<close>

lemma pixel_is_bit: "pixel e bp rw i j = Some b \<Longrightarrow> is_bit b"
  by (auto simp: pixel_def is_bit_def and_one_eq split: Option.bind_splits)

lemma uint_word_of_bit: "is_bit b \<Longrightarrow> uint (word_of_int b :: CARD8) = b"
  by (auto simp: is_bit_def)

lemma raster_bits_update:
  "raster_bits gp \<Longrightarrow> is_bit b \<Longrightarrow> raster_bits (gp[n := word_of_int b])"
  by (auto simp: raster_bits_def is_bit_def list_all_iff dest: set_update_subset_insert [THEN subsetD])

lemma raster_bits_cell:
  assumes "raster_bits gp" "0 \<le> i * wd + j" "i * wd + j < int (length gp)"
  shows "is_bit (cell gp wd i j)"
proof -
  have "nat (i * wd + j) < length gp" using assms(2,3) by linarith
  with assms(1) have "gp ! nat (i * wd + j) = 0 \<or> gp ! nat (i * wd + j) = 1"
    by (simp add: raster_bits_def list_all_length)
  then show ?thesis
    by (auto simp: is_bit_def cell_def)
qed

lemma extract_cols_spec:
  assumes "extract_cols e bp h coff0 i js gp = Some gp'"
  shows "length gp' = length gp"
    and "raster_bits gp \<longrightarrow> raster_bits gp'"
    and "\<forall>n. (\<forall>j\<in>set js. int n \<noteq> i * ftFRectWidth h + (j - coff0)) \<longrightarrow> gp' ! n = gp ! n"
    and "distinct js \<longrightarrow> (\<forall>j\<in>set js. \<exists>b. pixel e bp (ftRowWords h) i j = Some b
           \<and> 0 \<le> i * ftFRectWidth h + (j - coff0)
           \<and> i * ftFRectWidth h + (j - coff0) < int (length gp)
           \<and> gp' ! nat (i * ftFRectWidth h + (j - coff0)) = word_of_int b)"
  using assms
proof (induction js arbitrary: gp)
  case Nil
  { case 1 then show ?case by simp }
  { case 2 then show ?case by simp }
  { case 3 then show ?case by simp }
  { case 4 then show ?case by simp }
next
  case (Cons j js)
  let ?a = "i * ftFRectWidth h + (j - coff0)"
  {
    fix gp assume run: "extract_cols e bp h coff0 i (j # js) gp = Some gp'"
    then obtain b gp1 where
      b: "pixel e bp (ftRowWords h) i j = Some b" and
      s: "store gp ?a (word_of_int b) = Some gp1" and
      r: "extract_cols e bp h coff0 i js gp1 = Some gp'"
      by (auto split: Option.bind_splits)
    from store_Some [OF s] have a: "0 \<le> ?a" "?a < int (length gp)"
      and gp1: "gp1 = gp[nat ?a := word_of_int b]" by auto
    have "length gp' = length gp"
      using Cons.IH(1) [OF r] gp1 by simp
    moreover have "raster_bits gp \<longrightarrow> raster_bits gp'"
      using Cons.IH(2) [OF r] gp1 raster_bits_update [OF _ pixel_is_bit [OF b]] by auto
    moreover have "\<forall>n. (\<forall>j'\<in>set (j # js). int n \<noteq> i * ftFRectWidth h + (j' - coff0)) \<longrightarrow> gp' ! n = gp ! n"
    proof (intro allI impI)
      fix n assume n: "\<forall>j'\<in>set (j # js). int n \<noteq> i * ftFRectWidth h + (j' - coff0)"
      then have "gp' ! n = gp1 ! n" using Cons.IH(3) [OF r] by simp
      moreover from n a have "n \<noteq> nat ?a" by auto
      ultimately show "gp' ! n = gp ! n" by (simp add: gp1)
    qed
    moreover have "distinct (j # js) \<longrightarrow> (\<forall>j'\<in>set (j # js). \<exists>b. pixel e bp (ftRowWords h) i j' = Some b
           \<and> 0 \<le> i * ftFRectWidth h + (j' - coff0)
           \<and> i * ftFRectWidth h + (j' - coff0) < int (length gp)
           \<and> gp' ! nat (i * ftFRectWidth h + (j' - coff0)) = word_of_int b)"
    proof (intro impI ballI)
      fix j' assume d: "distinct (j # js)" and j': "j' \<in> set (j # js)"
      show "\<exists>b. pixel e bp (ftRowWords h) i j' = Some b
           \<and> 0 \<le> i * ftFRectWidth h + (j' - coff0)
           \<and> i * ftFRectWidth h + (j' - coff0) < int (length gp)
           \<and> gp' ! nat (i * ftFRectWidth h + (j' - coff0)) = word_of_int b"
      proof (cases "j' = j")
        case True
        have "\<forall>j''\<in>set js. int (nat ?a) \<noteq> i * ftFRectWidth h + (j'' - coff0)"
          using d a by auto
        then have "gp' ! nat ?a = gp1 ! nat ?a" using Cons.IH(3) [OF r] by blast
        then show ?thesis using True b a by (simp add: gp1)
      next
        case False
        with j' d Cons.IH(4) [OF r] show ?thesis by (auto simp: gp1)
      qed
    qed
    ultimately have "length gp' = length gp \<and> (raster_bits gp \<longrightarrow> raster_bits gp')
      \<and> (\<forall>n. (\<forall>j'\<in>set (j # js). int n \<noteq> i * ftFRectWidth h + (j' - coff0)) \<longrightarrow> gp' ! n = gp ! n)
      \<and> (distinct (j # js) \<longrightarrow> (\<forall>j'\<in>set (j # js). \<exists>b. pixel e bp (ftRowWords h) i j' = Some b
           \<and> 0 \<le> i * ftFRectWidth h + (j' - coff0)
           \<and> i * ftFRectWidth h + (j' - coff0) < int (length gp)
           \<and> gp' ! nat (i * ftFRectWidth h + (j' - coff0)) = word_of_int b))"
      by blast
  } note step = this
  { case 1 from step [OF this] show ?case by blast }
  { case 2 from step [OF this] show ?case by blast }
  { case 3 from step [OF this] show ?case by blast }
  { case 4 from step [OF this] show ?case by blast }
qed

lemma row_cells_disjoint:
  fixes i i' c c' wd :: int
  assumes "0 \<le> c" "c < wd" "0 \<le> c'" "c' < wd" "i * wd + c = i' * wd + c'"
  shows "i = i' \<and> c = c'"
proof -
  have wd: "0 < wd" using assms by linarith
  have "i = i'"
  proof (rule ccontr)
    assume ne: "i \<noteq> i'"
    show False
    proof (cases "i < i'")
      case True
      then have "(i + 1) * wd \<le> i' * wd" using wd by (intro mult_right_mono) simp_all
      then show False using assms by (simp add: algebra_simps)
    next
      case False
      with ne have "(i' + 1) * wd \<le> i * wd" using wd by (intro mult_right_mono) simp_all
      then show False using assms by (simp add: algebra_simps)
    qed
  qed
  with assms show ?thesis by simp
qed

lemma extract_rows_spec:
  assumes "extract_rows e bp h coff0 coff1 rows gp = Some gp'"
    and "coff1 - coff0 \<le> ftFRectWidth h"
  shows "length gp' = length gp
    \<and> (raster_bits gp \<longrightarrow> raster_bits gp')
    \<and> (\<forall>i c. 0 \<le> c \<and> c < ftFRectWidth h \<and> (i \<notin> set rows \<or> coff1 - coff0 \<le> c)
            \<and> 0 \<le> i * ftFRectWidth h + c
          \<longrightarrow> gp' ! nat (i * ftFRectWidth h + c) = gp ! nat (i * ftFRectWidth h + c))
    \<and> (distinct rows \<longrightarrow> (\<forall>i\<in>set rows. \<forall>j. coff0 \<le> j \<and> j < coff1 \<longrightarrow>
          (\<exists>b. pixel e bp (ftRowWords h) i j = Some b
             \<and> 0 \<le> i * ftFRectWidth h + (j - coff0)
             \<and> i * ftFRectWidth h + (j - coff0) < int (length gp)
             \<and> gp' ! nat (i * ftFRectWidth h + (j - coff0)) = word_of_int b)))"
  using assms(1)
proof (induction rows arbitrary: gp)
  case Nil
  then show ?case by simp
next
  case (Cons i0 rows)
  let ?wd = "ftFRectWidth h"
  from Cons.prems obtain gp1 where
    c: "extract_cols e bp h coff0 i0 [coff0..coff1 - 1] gp = Some gp1" and
    r: "extract_rows e bp h coff0 coff1 rows gp1 = Some gp'"
    by (auto split: Option.bind_splits)
  note cs = extract_cols_spec [OF c]
  note ih = Cons.IH [OF r]
  have frame1: "gp1 ! nat (i * ?wd + c) = gp ! nat (i * ?wd + c)"
    if "0 \<le> c" "c < ?wd" "i \<noteq> i0 \<or> coff1 - coff0 \<le> c" "0 \<le> i * ?wd + c" for i c
  proof -
    have "\<forall>j\<in>set [coff0..coff1 - 1]. int (nat (i * ?wd + c)) \<noteq> i0 * ?wd + (j - coff0)"
    proof
      fix j assume "j \<in> set [coff0..coff1 - 1]"
      then have j: "0 \<le> j - coff0" "j - coff0 < coff1 - coff0" by auto
      then have jw: "j - coff0 < ?wd" using assms(2) by linarith
      show "int (nat (i * ?wd + c)) \<noteq> i0 * ?wd + (j - coff0)"
      proof
        assume "int (nat (i * ?wd + c)) = i0 * ?wd + (j - coff0)"
        with that(4) have "i * ?wd + c = i0 * ?wd + (j - coff0)" by simp
        from row_cells_disjoint [OF that(1,2) j(1) jw this] that(3) j(2)
        show False by auto
      qed
    qed
    with cs(3) show ?thesis by blast
  qed
  have len: "length gp' = length gp" using ih cs(1) by simp
  have bits: "raster_bits gp \<longrightarrow> raster_bits gp'" using ih cs(2) by blast
  have frame: "\<forall>i c. 0 \<le> c \<and> c < ?wd \<and> (i \<notin> set (i0 # rows) \<or> coff1 - coff0 \<le> c)
            \<and> 0 \<le> i * ?wd + c
          \<longrightarrow> gp' ! nat (i * ?wd + c) = gp ! nat (i * ?wd + c)"
  proof (intro allI impI)
    fix i c
    assume a: "0 \<le> c \<and> c < ?wd \<and> (i \<notin> set (i0 # rows) \<or> coff1 - coff0 \<le> c)
            \<and> 0 \<le> i * ?wd + c"
    then have "gp' ! nat (i * ?wd + c) = gp1 ! nat (i * ?wd + c)" using ih by auto
    also have "\<dots> = gp ! nat (i * ?wd + c)" using a by (intro frame1) auto
    finally show "gp' ! nat (i * ?wd + c) = gp ! nat (i * ?wd + c)" .
  qed
  have written: "distinct (i0 # rows) \<longrightarrow> (\<forall>i\<in>set (i0 # rows). \<forall>j. coff0 \<le> j \<and> j < coff1 \<longrightarrow>
          (\<exists>b. pixel e bp (ftRowWords h) i j = Some b
             \<and> 0 \<le> i * ?wd + (j - coff0)
             \<and> i * ?wd + (j - coff0) < int (length gp)
             \<and> gp' ! nat (i * ?wd + (j - coff0)) = word_of_int b))"
  proof (intro impI ballI allI)
    fix i j
    assume d: "distinct (i0 # rows)" and i: "i \<in> set (i0 # rows)" and j: "coff0 \<le> j \<and> j < coff1"
    show "\<exists>b. pixel e bp (ftRowWords h) i j = Some b
             \<and> 0 \<le> i * ?wd + (j - coff0)
             \<and> i * ?wd + (j - coff0) < int (length gp)
             \<and> gp' ! nat (i * ?wd + (j - coff0)) = word_of_int b"
    proof (cases "i = i0")
      case True
      from j have "j \<in> set [coff0..coff1 - 1]" by simp
      with cs(4) obtain b where b: "pixel e bp (ftRowWords h) i0 j = Some b"
        "0 \<le> i0 * ?wd + (j - coff0)" "i0 * ?wd + (j - coff0) < int (length gp)"
        "gp1 ! nat (i0 * ?wd + (j - coff0)) = word_of_int b"
        by (auto simp del: set_upto)
      have "0 \<le> j - coff0 \<and> j - coff0 < ?wd \<and> (i0 \<notin> set rows \<or> coff1 - coff0 \<le> j - coff0)
            \<and> 0 \<le> i0 * ?wd + (j - coff0)"
        using j d b(2) assms(2) by auto
      with ih have "gp' ! nat (i0 * ?wd + (j - coff0)) = gp1 ! nat (i0 * ?wd + (j - coff0))"
        by blast
      with b True show ?thesis by simp
    next
      case False
      with i d have "i \<in> set rows" "distinct rows" by auto
      with ih j cs(1) show ?thesis by auto
    qed
  qed
  from len bits frame written show ?case by blast
qed

lemma glyph_raster_spec:
  assumes "glyph_raster e bp h coff0 coff1 = Some gp"
    and "coff1 - coff0 \<le> ftFRectWidth h"
  shows "int (length gp) = ftFRectWidth h * ftFRectHeight h"
    and "raster_bits gp"
    and "\<forall>i c. 0 \<le> i \<and> i < ftFRectHeight h \<and> 0 \<le> c \<and> coff1 - coff0 \<le> c
             \<and> c < ftFRectWidth h
           \<longrightarrow> cell gp (ftFRectWidth h) i c = 0"
    and "\<forall>i j. 0 \<le> i \<and> i < ftFRectHeight h \<and> coff0 \<le> j \<and> j < coff1
           \<longrightarrow> pixel e bp (ftRowWords h) i j = Some (cell gp (ftFRectWidth h) i (j - coff0))"
proof -
  let ?wd = "ftFRectWidth h" and ?ht = "ftFRectHeight h"
  from assms(1) obtain gp0 where
    a: "alloca_zero (?wd * ?ht) = Some gp0" and
    x: "extract_rows e bp h coff0 coff1 [0..?ht - 1] gp0 = Some gp"
    by (auto simp: glyph_raster_def split: Option.bind_splits)
  from a have nn: "0 \<le> ?wd * ?ht" and gp0: "gp0 = replicate (nat (?wd * ?ht)) 0"
    by (auto simp: alloca_zero_def split: if_splits)
  have b0: "raster_bits gp0" by (simp add: gp0 raster_bits_def list_all_iff)
  note xs = extract_rows_spec [OF x assms(2)]
  from xs show len: "int (length gp) = ?wd * ?ht" using nn by (simp add: gp0)
  from xs b0 show "raster_bits gp" by blast
  have inrange: "0 \<le> i * ?wd + c \<and> i * ?wd + c < ?wd * ?ht"
    if "0 \<le> i" "i < ?ht" "0 \<le> c" "c < ?wd" for i c
  proof -
    have "(i + 1) * ?wd \<le> ?ht * ?wd" using that by (intro mult_right_mono) simp_all
    moreover have "0 \<le> i * ?wd" using that by simp
    ultimately show ?thesis using that by (simp add: algebra_simps)
  qed
  show "\<forall>i c. 0 \<le> i \<and> i < ?ht \<and> 0 \<le> c \<and> coff1 - coff0 \<le> c \<and> c < ?wd
           \<longrightarrow> cell gp ?wd i c = 0"
  proof (intro allI impI)
    fix i c assume a: "0 \<le> i \<and> i < ?ht \<and> 0 \<le> c \<and> coff1 - coff0 \<le> c \<and> c < ?wd"
    with inrange [of i c] have r: "0 \<le> i * ?wd + c" "i * ?wd + c < ?wd * ?ht" by auto
    with xs a have "gp ! nat (i * ?wd + c) = gp0 ! nat (i * ?wd + c)" by blast
    also have "\<dots> = 0" using r by (simp add: gp0 nat_less_iff)
    finally show "cell gp ?wd i c = 0" by (simp add: cell_def)
  qed
  show "\<forall>i j. 0 \<le> i \<and> i < ?ht \<and> coff0 \<le> j \<and> j < coff1
           \<longrightarrow> pixel e bp (ftRowWords h) i j = Some (cell gp ?wd i (j - coff0))"
  proof (intro allI impI)
    fix i j assume a: "0 \<le> i \<and> i < ?ht \<and> coff0 \<le> j \<and> j < coff1"
    then have mem: "i \<in> set [0..?ht - 1]" by simp
    from xs have "\<forall>i\<in>set [0..?ht - 1]. \<forall>j. coff0 \<le> j \<and> j < coff1 \<longrightarrow>
          (\<exists>b. pixel e bp (ftRowWords h) i j = Some b
             \<and> 0 \<le> i * ?wd + (j - coff0)
             \<and> i * ?wd + (j - coff0) < int (length gp0)
             \<and> gp ! nat (i * ?wd + (j - coff0)) = word_of_int b)"
      by simp
    with mem a obtain b where b: "pixel e bp (ftRowWords h) i j = Some b"
      "gp ! nat (i * ?wd + (j - coff0)) = word_of_int b"
      by blast
    then show "pixel e bp (ftRowWords h) i j = Some (cell gp ?wd i (j - coff0))"
      using uint_word_of_bit [OF pixel_is_bit [OF b(1)]] by (simp add: cell_def)
  qed
qed

lemma extract_rows_in_range:
  "extract_rows e bp h coff0 coff1 rows gp = Some gp' \<Longrightarrow>
   \<forall>i\<in>set rows. \<forall>j. coff0 \<le> j \<and> j < coff1 \<longrightarrow>
     0 \<le> i * ftFRectWidth h + (j - coff0) \<and> i * ftFRectWidth h + (j - coff0) < int (length gp)"
proof (induction rows arbitrary: gp)
  case Nil
  then show ?case by simp
next
  case (Cons i rows)
  from Cons.prems obtain gp1 where
    c: "extract_cols e bp h coff0 i [coff0..coff1 - 1] gp = Some gp1" and
    r: "extract_rows e bp h coff0 coff1 rows gp1 = Some gp'"
    by (auto split: Option.bind_splits)
  from extract_cols_spec(4) [OF c]
  have "\<forall>j. coff0 \<le> j \<and> j < coff1 \<longrightarrow>
     0 \<le> i * ftFRectWidth h + (j - coff0) \<and> i * ftFRectWidth h + (j - coff0) < int (length gp)"
    by auto
  with Cons.IH [OF r] extract_cols_spec(1) [OF c] show ?case by simp
qed

lemma glyph_raster_span:
  assumes "glyph_raster e bp h coff0 coff1 = Some gp" "0 < ftFRectHeight h"
  shows "coff1 - coff0 \<le> ftFRectWidth h"
proof -
  let ?wd = "ftFRectWidth h" and ?ht = "ftFRectHeight h"
  from assms(1) obtain gp0 where
    a: "alloca_zero (?wd * ?ht) = Some gp0" and
    x: "extract_rows e bp h coff0 coff1 [0..?ht - 1] gp0 = Some gp"
    by (auto simp: glyph_raster_def split: Option.bind_splits)
  from a have nn: "0 \<le> ?wd * ?ht" and len: "int (length gp0) = ?wd * ?ht"
    by (auto simp: alloca_zero_def split: if_splits)
  from nn assms(2) have wd: "0 \<le> ?wd" by (simp add: zero_le_mult_iff)
  show ?thesis
  proof (cases "coff0 < coff1")
    case False
    with wd show ?thesis by simp
  next
    case True
    have "?ht - 1 \<in> set [0..?ht - 1]" using assms(2) by simp
    with extract_rows_in_range [OF x] True
    have "(?ht - 1) * ?wd + (coff1 - 1 - coff0) < int (length gp0)" by auto
    then show ?thesis unfolding len by (simp add: algebra_simps)
  qed
qed

subsection \<open>The glyph loop and the document\<close>

lemma pack_rows_HEXROW:
  "pack_rows gp wd span rows = Some ls \<Longrightarrow> l \<in> set ls \<Longrightarrow> \<exists>s. l = HEXROW s"
  by (induction rows arbitrary: ls) (auto split: Option.bind_splits)

lemma dump_glyph_cases:
  assumes "dump_glyph e fp bp h g = Some ls"
  obtains
    (skipped) c where
      "toushort fp (locTable h + 2 * ((g - ftFirstChar h) + 0)) = Some c"
      "toushort fp (locTable h + 2 * ((g - ftFirstChar h) + 1)) = Some c"
      "ls = []"
  | (emitted) coff0 coff1 ow gp top bot descent rows where
      "toushort fp (locTable h + 2 * ((g - ftFirstChar h) + 0)) = Some coff0"
      "toushort fp (locTable h + 2 * ((g - ftFirstChar h) + 1)) = Some coff1"
      "coff0 \<noteq> coff1"
      "toushort fp (owTable h + 2 * (g - ftFirstChar h)) = Some ow"
      "glyph_raster e bp h coff0 coff1 = Some gp"
      "find_top_bot gp (ftFRectWidth h) (ftFRectHeight h) = Some (top, bot)"
      "toshort fp 20 = Some descent"
      "pack_rows gp (ftFRectWidth h) (coff1 - coff0) [top..bot] = Some rows"
      "ls = [STARTCHAR g, ENCODING g, SWIDTH ((ow AND 255) * 720) 0, DWIDTH (ow AND 255) 0,
             BBX (coff1 - coff0) ((bot - top) + 1) ((drop_bit 8 ow AND 255) + ftKernMax h)
               ((ftFRectHeight h - descent) - (bot + 1)),
             BITMAP] @ rows @ [ENDCHAR]"
  using assms unfolding dump_glyph_def
  by (auto split: Option.bind_splits if_splits prod.splits)






lemma FontDump_doc_lines:
  assumes "FontDump_doc fuel e fp h name style sz = Some (info, doc)"
  obtains hdr bp glyphs where
    "header_lines fp h name style sz info = Some hdr"
    "load_bp e fp h = Some bp"
    "dump_glyphs fuel e fp bp h (ftFirstChar h) = Some glyphs"
    "doc = hdr @ glyphs @ [ENDFONT]"
    "FontInfo fuel e fp = Some info"
  using assms unfolding FontDump_doc_def
  by (auto split: Option.bind_splits)

subsection \<open>Widths and skipped glyphs\<close>

lemma widths_paired_append:
  "widths_paired xs \<Longrightarrow> widths_paired ys \<Longrightarrow> widths_paired (xs @ ys)"
proof (induction xs)
  case Nil
  then show ?case by simp
next
  case (Cons l xs)
  then have "swidth_followed l (xs @ ys)"
    by (cases xs) (auto simp: swidth_followed_def split: bdf_line.splits)
  with Cons show ?case by simp
qed

lemma widths_paired_hexrows:
  "\<forall>l\<in>set ls. \<exists>s. l = HEXROW s \<Longrightarrow> widths_paired ls"
  by (induction ls) (auto simp: swidth_followed_def)

lemma dump_glyph_widths:
  assumes "dump_glyph e fp bp h g = Some ls"
  shows "widths_paired ls"
  using assms
proof (cases rule: dump_glyph_cases)
  case skipped
  then show ?thesis by simp
next
  case (emitted coff0 coff1 ow gp tp bt descent rows)
  have "widths_paired rows"
    using pack_rows_HEXROW [OF emitted(8)] by (intro widths_paired_hexrows) blast
  then have "widths_paired (rows @ [ENDCHAR])"
    by (simp add: widths_paired_append swidth_followed_def)
  then show ?thesis
    by (simp add: emitted(9) swidth_followed_def)
qed

lemma dump_glyphs_widths:
  "dump_glyphs fuel e fp bp h g0 = Some doc \<Longrightarrow> widths_paired doc"
proof (induction fuel arbitrary: g0 doc)
  case 0
  then show ?case by simp
next
  case (Suc fuel)
  show ?case
  proof (cases "g0 \<le> ftLastChar h")
    case False
    with Suc.prems show ?thesis by simp
  next
    case True
    with Suc.prems obtain ls rest where
      ls: "dump_glyph e fp bp h g0 = Some ls" and
      rest: "dump_glyphs fuel e fp bp h (next_g g0) = Some rest" and
      doc: "doc = ls @ rest"
      by (auto split: Option.bind_splits)
    show ?thesis
      unfolding doc by (intro widths_paired_append dump_glyph_widths [OF ls] Suc.IH [OF rest])
  qed
qed

lemma header_lines_widths:
  "header_lines fp h name style sz info = Some hdr \<Longrightarrow> widths_paired hdr"
  by (auto simp: header_lines_def swidth_followed_def split: font_info.splits Option.bind_splits)

lemma FontDump_doc_widths:
  assumes "FontDump_doc fuel e fp h name style sz = Some (info, doc)"
  shows "widths_paired doc"
  using assms
proof (cases rule: FontDump_doc_lines)
  case (1 hdr bp glyphs)
  have "widths_paired (glyphs @ [ENDFONT])"
    by (intro widths_paired_append dump_glyphs_widths [OF 1(3)]) (simp add: swidth_followed_def)
  with header_lines_widths [OF 1(1)] show ?thesis
    unfolding 1(4) by (simp add: widths_paired_append)
qed

text \<open>
  C7. For every glyph the loop body emits, the \<^verbatim>\<open>SWIDTH\<close> line (the third of the record)
  carries 720 times the low byte of the glyph's offset/width entry and 0, the
  \<^verbatim>\<open>DWIDTH\<close> line (the fourth) carries that low byte and 0, and the record has no other
  line of either kind; and in every document \<^verbatim>\<open>FontDump\<close> writes, each \<^verbatim>\<open>SWIDTH\<close> line
  is followed at once by a \<^verbatim>\<open>DWIDTH\<close> line with a 720th of its first number, both
  second numbers being 0.
\<close>

theorem SWIDTH_is_720_times_DWIDTH:
  "(dump_glyph e fp bp h g = Some ls \<and> ls \<noteq> [] \<longrightarrow>
      (\<exists>ow. toushort fp (owTable h + 2 * (g - ftFirstChar h)) = Some ow
         \<and> ls ! 2 = SWIDTH ((ow AND 255) * 720) 0
         \<and> ls ! 3 = DWIDTH (ow AND 255) 0
         \<and> (\<forall>x y. SWIDTH x y \<in> set ls \<longrightarrow> x = (ow AND 255) * 720 \<and> y = 0)
         \<and> (\<forall>x y. DWIDTH x y \<in> set ls \<longrightarrow> x = ow AND 255 \<and> y = 0)))
   \<and> (FontDump_doc fuel e fp h name style sz = Some (info, doc) \<longrightarrow> widths_paired doc)"
proof (intro conjI impI)
  assume a: "dump_glyph e fp bp h g = Some ls \<and> ls \<noteq> []"
  then have run: "dump_glyph e fp bp h g = Some ls" and ne: "ls \<noteq> []" by simp_all
  from run show "\<exists>ow. toushort fp (owTable h + 2 * (g - ftFirstChar h)) = Some ow
         \<and> ls ! 2 = SWIDTH ((ow AND 255) * 720) 0
         \<and> ls ! 3 = DWIDTH (ow AND 255) 0
         \<and> (\<forall>x y. SWIDTH x y \<in> set ls \<longrightarrow> x = (ow AND 255) * 720 \<and> y = 0)
         \<and> (\<forall>x y. DWIDTH x y \<in> set ls \<longrightarrow> x = ow AND 255 \<and> y = 0)"
  proof (cases rule: dump_glyph_cases)
    case skipped
    with ne show ?thesis by simp
  next
    case (emitted coff0 coff1 ow gp tp bt descent rows)
    from pack_rows_HEXROW [OF emitted(8)]
    have "\<forall>x y. SWIDTH x y \<notin> set rows \<and> DWIDTH x y \<notin> set rows" by blast
    with emitted(4) show ?thesis
      by (auto simp: emitted(9))
  qed
next
  assume "FontDump_doc fuel e fp h name style sz = Some (info, doc)"
  then show "widths_paired doc" by (rule FontDump_doc_widths)
qed

theorem SWIDTH_is_720_times_DWIDTH_witness:
  "dump_glyph host_be scenario_font (drop 26 scenario_font) scenario_header 65
     = Some [STARTCHAR 65, ENCODING 65, SWIDTH 5760 0, DWIDTH 8 0, BBX 4 1 0 0, BITMAP,
             HEXROW (''a0'' @ [newline]), ENDCHAR]
   \<and> toushort scenario_font (owTable scenario_header + 2 * (65 - ftFirstChar scenario_header))
     = Some 8
   \<and> (5760::int) = (8 AND 255) * 720
   \<and> widths_paired
       [STARTFONT, FONT ''Test'' [] 12, SIZE 12 72 72, FONTBOUNDINGBOX 3 1 0 0,
        STARTPROPERTIES, FONT_ASCENT 1, FONT_DESCENT 0, ENDPROPERTIES, CHARS 1,
        STARTCHAR 65, ENCODING 65, SWIDTH 5760 0, DWIDTH 8 0, BBX 4 1 0 0, BITMAP,
        HEXROW (''a0'' @ [newline]), ENDCHAR, ENDFONT]"
proof -
  note inst = SWIDTH_is_720_times_DWIDTH [of host_be scenario_font "drop 26 scenario_font"
      scenario_header 65 _ 3 "''Test''" 0 12]
  have ow: "toushort scenario_font (owTable scenario_header + 2 * (65 - ftFirstChar scenario_header))
     = Some 8"
    by (simp add: eval_defs scenario_header_def scenario_font_def)
  from inst [THEN conjunct2, rule_format, OF scenario_doc [of "''Test''" 0 12]]
  have "widths_paired
       [STARTFONT, FONT ''Test'' [] 12, SIZE 12 72 72, FONTBOUNDINGBOX 3 1 0 0,
        STARTPROPERTIES, FONT_ASCENT 1, FONT_DESCENT 0, ENDPROPERTIES, CHARS 1,
        STARTCHAR 65, ENCODING 65, SWIDTH 5760 0, DWIDTH 8 0, BBX 4 1 0 0, BITMAP,
        HEXROW (''a0'' @ [newline]), ENDCHAR, ENDFONT]"
    by (simp add: FontStyleName_def)
  then show ?thesis
    using scenario_glyph_A ow by simp
qed



subsection \<open>Pixels of the packed image\<close>

lemma card16_of_bytes:
  "to_card16 (push_bit 8 (uint p0) OR uint p1) = uint p0 * 256 + uint p1"
  for p0 p1 :: CARD8
proof -
  have "push_bit 8 (uint p0) OR uint p1 = concat_bit 8 (uint p1) (uint p0)"
    by (simp add: concat_bit_def or.commute take_bit_int_eq_self uint_bounded [where 'a = 8, simplified])
  also have "\<dots> = uint p1 + push_bit 8 (uint p0)"
    by (simp add: concat_bit_eq take_bit_int_eq_self uint_bounded [where 'a = 8, simplified])
  finally have v: "push_bit 8 (uint p0) OR uint p1 = uint p0 * 256 + uint p1"
    by (simp add: push_bit_eq_mult)
  have "uint p0 < 256" "uint p1 < 256"
    using uint_bounded [of p0] uint_bounded [of p1] by simp_all
  then have "uint p0 * 256 + uint p1 < 2 ^ 16" by simp
  then show ?thesis
    unfolding to_card16_def v by (simp add: take_bit_int_eq_self)
qed

lemma toushort_bytes:
  "rd m a = Some p0 \<Longrightarrow> rd m (a + 1) = Some p1 \<Longrightarrow>
   toushort m a = Some (uint p0 * 256 + uint p1)"
  by (simp add: toushort_def card16_of_bytes)

lemma rd_drop: "0 \<le> a \<Longrightarrow> rd (drop n m) a = rd m (int n + a)"
  by (auto simp: rd_def nat_add_distrib add.commute)

lemma rd_take: "a < int n \<Longrightarrow> rd (take n m) a = rd m a"
  by (auto simp: rd_def)

lemma pixel_bit: "drop_bit n w AND 1 = (if bit w n then 1 else 0)" for w :: int
  by (auto simp: and_one_eq bit_iff_odd_drop_bit odd_iff_mod_2_eq_one)

lemma word_in_image:
  fixes i j rw ht :: int
  assumes "0 \<le> i" "i < ht" "0 \<le> j" "j < 16 * rw"
  shows "0 \<le> i * rw + j div 16" "2 * (i * rw + j div 16) + 1 < ht * rw * 2"
proof -
  have rw: "0 < rw" using assms by linarith
  have d: "0 \<le> j div 16" "j div 16 < rw" using assms by presburger+
  have "0 \<le> i * rw" using assms rw by simp
  with d show "0 \<le> i * rw + j div 16" by simp
  have "(i + 1) * rw \<le> ht * rw" using assms rw by (intro mult_right_mono) simp_all
  with d show "2 * (i * rw + j div 16) + 1 < ht * rw * 2" by (simp add: algebra_simps)
qed

lemma big_endian_pixel:
  assumes be: "big_endian e"
    and i: "0 \<le> i" "i < ftFRectHeight h" and j: "0 \<le> j" "j < 16 * ftRowWords h"
    and img: "bitImage + ftFRectHeight h * ftRowWords h * 2 \<le> int (length fp)"
  shows "\<exists>bp b. load_bp e fp h = Some bp \<and> pixel e bp (ftRowWords h) i j = Some b
           \<and> image_bit fp h i j = Some b"
proof -
  let ?k = "i * ftRowWords h + j div 16"
  let ?n = "ftFRectHeight h * ftRowWords h * 2"
  from word_in_image [OF i j] have k: "0 \<le> ?k" "2 * ?k + 1 < ?n" by simp_all
  define bp where "bp = (if odd_base e then take (nat ?n) (drop 26 fp) else drop 26 fp)"
  have ld: "load_bp e fp h = Some bp"
    using img k by (simp add: load_bp_def bp_def bitImage_def)
  have rdbp: "rd bp a = rd fp (26 + a)" if "0 \<le> a" "a < ?n" for a
    using that rd_drop [of a 26 fp] by (simp add: bp_def rd_take)
  have in0: "rd fp (26 + 2 * ?k) \<noteq> None" and in1: "rd fp (26 + (2 * ?k + 1)) \<noteq> None"
    using img k by (simp_all add: rd_def bitImage_def)
  then obtain p0 p1 where p: "rd fp (26 + 2 * ?k) = Some p0" "rd fp (26 + (2 * ?k + 1)) = Some p1"
    by auto
  have w: "bp_word e bp ?k = Some (uint p0 * 256 + uint p1)"
    using p k be by (simp add: bp_word_def rdbp)
  have t: "toushort fp (bitImage + 2 * ?k) = Some (uint p0 * 256 + uint p1)"
    using p by (intro toushort_bytes) (simp_all add: bitImage_def add.assoc)
  have "pixel e bp (ftRowWords h) i j
          = Some (if bit (uint p0 * 256 + uint p1) (nat (15 - j mod 16)) then 1 else 0)"
    by (simp only: pixel_def w pixel_bit bind.bind_lunit)
  moreover have "image_bit fp h i j
          = Some (if bit (uint p0 * 256 + uint p1) (nat (15 - j mod 16)) then 1 else 0)"
    by (simp only: image_bit_def t option.map)
  ultimately show ?thesis using ld by simp
qed

subsection \<open>The bitmap section of a glyph\<close>

lemma pack_cols_in_range:
  "pack_cols gp wd i js st = Some st' \<Longrightarrow>
   \<forall>j\<in>set js. 0 \<le> i * wd + j \<and> i * wd + j < int (length gp)"
proof (induction js arbitrary: st)
  case Nil
  then show ?case by simp
next
  case (Cons j js)
  from Cons.prems obtain b st1 where b: "rd gp (i * wd + j) = Some b"
    and r: "pack_cols gp wd i js st1 = Some st'"
    by (auto simp: Let_def split: Option.bind_splits)
  from rd_Some [OF b] Cons.IH [OF r] show ?case by simp
qed

lemma pack_row_in_range:
  assumes "pack_row gp wd span i = Some t"
  shows "\<forall>j. 0 \<le> j \<and> j < span \<longrightarrow> 0 \<le> i * wd + j \<and> i * wd + j < int (length gp)"
proof -
  from assms obtain st where "pack_cols gp wd i [0..span - 1] (0, []) = Some st"
    by (auto simp: pack_row_def split: Option.bind_splits)
  from pack_cols_in_range [OF this] show ?thesis by simp
qed

lemma pack_row_text:
  assumes "pack_row gp wd span i = Some t" "raster_bits gp"
  shows "t = row_hex (row_bits gp wd span i) @ [newline]"
    and "list_all is_bit (row_bits gp wd span i)"
proof -
  note rng = pack_row_in_range [OF assms(1)]
  have cells: "\<forall>j. 0 \<le> j \<and> j < span \<longrightarrow>
           0 \<le> i * wd + j \<and> i * wd + j < int (length gp) \<and> is_bit (cell gp wd i j)"
    using rng raster_bits_cell [OF assms(2)] by blast
  from pack_row_spec [OF cells] assms(1)
  show "t = row_hex (row_bits gp wd span i) @ [newline]" by simp
  from cells show "list_all is_bit (row_bits gp wd span i)"
    by (simp add: row_bits_def list_all_iff)
qed

lemma pack_rows_texts:
  "pack_rows gp wd span rows = Some ls \<Longrightarrow> raster_bits gp \<Longrightarrow>
   ls = map (\<lambda>i. HEXROW (row_hex (row_bits gp wd span i) @ [newline])) rows
   \<and> (\<forall>i\<in>set rows. list_all is_bit (row_bits gp wd span i)
        \<and> (\<forall>j. 0 \<le> j \<and> j < span \<longrightarrow> 0 \<le> i * wd + j \<and> i * wd + j < int (length gp)))"
proof (induction rows arbitrary: ls)
  case Nil
  then show ?case by simp
next
  case (Cons i rows)
  from Cons.prems(1) obtain t rest where
    t: "pack_row gp wd span i = Some t" and
    r: "pack_rows gp wd span rows = Some rest" and
    ls: "ls = HEXROW t # rest"
    by (auto split: Option.bind_splits)
  from pack_row_text [OF t Cons.prems(2)] pack_row_in_range [OF t] Cons.IH [OF r Cons.prems(2)] ls
  show ?case by simp
qed

lemma extract_rows_bits:
  "extract_rows e bp h coff0 coff1 rows gp = Some gp' \<Longrightarrow> raster_bits gp \<Longrightarrow> raster_bits gp'"
proof (induction rows arbitrary: gp)
  case Nil
  then show ?case by simp
next
  case (Cons i rows)
  from Cons.prems(1) obtain gp1 where
    c: "extract_cols e bp h coff0 i [coff0..coff1 - 1] gp = Some gp1" and
    r: "extract_rows e bp h coff0 coff1 rows gp1 = Some gp'"
    by (auto split: Option.bind_splits)
  from extract_cols_spec(2) [OF c] Cons.prems(2) have "raster_bits gp1" by blast
  with Cons.IH [OF r] show ?case .
qed

lemma glyph_raster_bits:
  assumes "glyph_raster e bp h coff0 coff1 = Some gp"
  shows "raster_bits gp"
proof -
  from assms obtain gp0 where
    a: "alloca_zero (ftFRectWidth h * ftFRectHeight h) = Some gp0" and
    x: "extract_rows e bp h coff0 coff1 [0..ftFRectHeight h - 1] gp0 = Some gp"
    by (auto simp: glyph_raster_def split: Option.bind_splits)
  from a have "raster_bits gp0"
    by (auto simp: alloca_zero_def raster_bits_def list_all_iff split: if_splits)
  with x show ?thesis by (rule extract_rows_bits)
qed



subsection \<open>Decoding the bitmap rows\<close>

lemma set_raster_on_pixels:
  "set (raster_on_pixels gp wd tp bt) =
    {(i, j). tp \<le> i \<and> i \<le> bt \<and> 0 \<le> j \<and> j < wd \<and> cell gp wd i j \<noteq> 0}"
  by (auto simp: raster_on_pixels_def)

lemma zip_upto_map:
  "zip [tp..tp + int (length (map f [tp..bt])) - 1] (map f [tp..bt]) = map (\<lambda>i. (i, f i)) [tp..bt]"
proof (cases "tp \<le> bt")
  case True
  then have "tp + int (length (map f [tp..bt])) - 1 = bt" by simp
  then show ?thesis by (simp add: zip_map2 zip_same_conv_map)
next
  case False
  then show ?thesis by simp
qed

lemma set_decoded_on_pixels:
  "set (decoded_on_pixels span tp (map f [tp..bt])) =
    {(i, j). tp \<le> i \<and> i \<le> bt \<and> 0 \<le> j \<and> j < span \<and> decode_row span (f i) ! nat j \<noteq> 0}"
  unfolding decoded_on_pixels_def zip_upto_map by auto

text \<open>
  C5. For every glyph the loop body emits, in a resource whose rectangle has a positive
  height: decoding the emitted
  bitmap rows (hexadecimal digits to bits, most significant first, the bits beyond the
  span dropped) gives back, row by row, the first \<open>coff1 - coff0\<close> pixels of the rows
  top to bottom of the glyph's raster, and the pixels that are on in the decoded rows
  are exactly the pixels that are on in those rows of the raster.
\<close>

theorem bitmap_rows_round_trip:
  assumes run: "dump_glyph e fp bp h g = Some ls" and ne: "ls \<noteq> []"
    and c0: "toushort fp (locTable h + 2 * ((g - ftFirstChar h) + 0)) = Some coff0"
    and c1: "toushort fp (locTable h + 2 * ((g - ftFirstChar h) + 1)) = Some coff1"
    and ht: "0 < ftFRectHeight h"
  shows "\<exists>gp tp bt.
      glyph_raster e bp h coff0 coff1 = Some gp
    \<and> find_top_bot gp (ftFRectWidth h) (ftFRectHeight h) = Some (tp, bt)
    \<and> map (decode_row (coff1 - coff0)) (map hexrow_text (butlast (drop 6 ls)))
        = map (row_bits gp (ftFRectWidth h) (coff1 - coff0)) [tp..bt]
    \<and> set (decoded_on_pixels (coff1 - coff0) tp (map hexrow_text (butlast (drop 6 ls))))
        = set (raster_on_pixels gp (ftFRectWidth h) tp bt)"
  using run
proof (cases rule: dump_glyph_cases)
  case skipped
  with ne show ?thesis by simp
next
  case (emitted coff0' coff1' ow gp tp bt descent rows)
  let ?wd = "ftFRectWidth h" and ?ht = "ftFRectHeight h" and ?span = "coff1 - coff0"
  from emitted(1,2) c0 c1 have eq: "coff0' = coff0" "coff1' = coff1" by simp_all
  note gr = emitted(5) [unfolded eq]
  note pr = emitted(8) [unfolded eq]
  note pt = pack_rows_texts [OF pr glyph_raster_bits [OF gr]]
  note tb = find_top_bot_spec [OF emitted(6)]
  note span = glyph_raster_span [OF gr ht]
  note gs = glyph_raster_spec [OF gr span]
  let ?text = "\<lambda>i. row_hex (row_bits gp ?wd ?span i) @ [newline]"
  have texts: "map hexrow_text (butlast (drop 6 ls)) = map ?text [tp..bt]"
    using pt by (simp add: emitted(9) butlast_append eq comp_def)
  have dec: "decode_row ?span (?text i) = row_bits gp ?wd ?span i" if "i \<in> set [tp..bt]" for i
  proof -
    from pt that have "list_all is_bit (row_bits gp ?wd ?span i)" by blast
    moreover have "int (length (row_bits gp ?wd ?span i)) = max 0 ?span"
      by (simp add: row_bits_def)
    ultimately show ?thesis by (rule decode_row_pack)
  qed
  have rows_eq: "map (decode_row ?span) (map hexrow_text (butlast (drop 6 ls)))
        = map (row_bits gp ?wd ?span) [tp..bt]"
    unfolding texts using dec by (simp add: comp_def)
  have rng: "0 \<le> i \<and> i < ?ht" if "tp \<le> i" "i \<le> bt" for i
  proof (cases "\<exists>i. 0 \<le> i \<and> i < ?ht \<and> row_has_ink gp ?wd i")
    case True
    with tb(2) that show ?thesis by auto
  next
    case False
    with tb(3) that ht show ?thesis by auto
  qed
  have "set (decoded_on_pixels ?span tp (map ?text [tp..bt]))
        = set (raster_on_pixels gp ?wd tp bt)"
  proof -
    have "(tp \<le> i \<and> i \<le> bt \<and> 0 \<le> j \<and> j < ?span \<and> decode_row ?span (?text i) ! nat j \<noteq> 0)
        = (tp \<le> i \<and> i \<le> bt \<and> 0 \<le> j \<and> j < ?wd \<and> cell gp ?wd i j \<noteq> 0)" for i j
    proof (cases "tp \<le> i \<and> i \<le> bt \<and> 0 \<le> j")
      case False
      then show ?thesis by auto
    next
      case True
      then have i: "i \<in> set [tp..bt]" "0 \<le> i" "i < ?ht" using rng by auto
      show ?thesis
      proof (cases "j < ?span")
        case inspan: True
        have "row_bits gp ?wd ?span i ! nat j = cell gp ?wd i j"
          using True inspan by (simp add: row_bits_def)
        with True inspan span dec [OF i(1)] show ?thesis by auto
      next
        case False
        then have "j < ?wd \<longrightarrow> cell gp ?wd i j = 0"
          using gs(3) i True by auto
        with False show ?thesis by auto
      qed
    qed
    then show ?thesis
      unfolding set_decoded_on_pixels set_raster_on_pixels by auto
  qed
  with rows_eq gr emitted(6) show ?thesis
    unfolding texts by blast
qed

subsection \<open>The pixel written, and the scenario pixel by pixel\<close>

text \<open>
  C3 (as amended). On a big-endian host, whatever the parity of the address of the
  resource: for every row \<open>i\<close> of the image and every column \<open>j\<close> within the
  \<^verbatim>\<open>rowWords\<close> words of a row, the image lying inside the resource, the copy or the
  pointer \<^verbatim>\<open>bp\<close> is obtained and the value the Rasterizer computes at line 496 is bit
  \<open>15 - j mod 16\<close> of the 16-bit word, most significant byte first, at index
  \<open>j div 16\<close> of row \<open>i\<close>; and it is the value that cell \<open>(i, j - coff0)\<close> of the
  raster of a glyph holds whose columns \<open>[coff0, coff1)\<close> contain \<open>j\<close>.
\<close>

theorem rasterizer_pixel_big_endian:
  assumes "big_endian e"
    and "0 \<le> i" "i < ftFRectHeight h" and "0 \<le> j" "j < 16 * ftRowWords h"
    and "bitImage + ftFRectHeight h * ftRowWords h * 2 \<le> int (length fp)"
  shows "\<exists>bp b. load_bp e fp h = Some bp
    \<and> pixel e bp (ftRowWords h) i j = Some b
    \<and> image_bit fp h i j = Some b
    \<and> (\<forall>coff0 coff1 gp.
         coff0 \<le> j \<and> j < coff1 \<and> glyph_raster e bp h coff0 coff1 = Some gp
         \<longrightarrow> cell gp (ftFRectWidth h) i (j - coff0) = b)"
proof -
  from big_endian_pixel [OF assms] obtain bp b where
    b: "load_bp e fp h = Some bp" "pixel e bp (ftRowWords h) i j = Some b"
       "image_bit fp h i j = Some b" by blast
  have "cell gp (ftFRectWidth h) i (j - coff0) = b"
    if "coff0 \<le> j \<and> j < coff1 \<and> glyph_raster e bp h coff0 coff1 = Some gp"
    for coff0 coff1 gp
  proof -
    from that have gr: "glyph_raster e bp h coff0 coff1 = Some gp" by simp
    have "0 < ftFRectHeight h" using assms(2,3) by linarith
    from glyph_raster_span [OF gr this] have sp: "coff1 - coff0 \<le> ftFRectWidth h" .
    from glyph_raster_spec(4) [OF gr sp] that assms(2,3)
    have "pixel e bp (ftRowWords h) i j = Some (cell gp (ftFRectWidth h) i (j - coff0))"
      by blast
    with b(2) show ?thesis by simp
  qed
  with b show ?thesis by blast
qed

lemma scenario_image_bits:
  "image_bit scenario_font scenario_header 0 0 = Some 1"
  "image_bit scenario_font scenario_header 0 1 = Some 0"
  "image_bit scenario_font scenario_header 0 2 = Some 1"
  "image_bit scenario_font scenario_header 0 3 = Some 0"
  by (simp_all add: image_bit_def eval_defs scenario_header_def scenario_font_def bit_iff_odd_drop_bit)

lemma scenario_le_pixel:
  "load_bp host_le scenario_font scenario_header = Some (drop 26 scenario_font)"
  "pixel host_le (drop 26 scenario_font) (ftRowWords scenario_header) 0 0 = Some 0"
  by (simp_all add: eval_defs host_le_def host_be_def scenario_header_def scenario_font_def)

lemma replicate_4: "replicate 4 x = [x, x, x, x]"
  by (simp add: numeral_eq_Suc)

lemma nat_bits_4: "nat_bits 4 v = [v div 8 mod 2, v div 4 mod 2, v div 2 mod 2, v mod 2]"
proof -
  have "(4::nat) = Suc (Suc (Suc (Suc 0)))" by simp
  then have "nat_bits 4 v = nat_bits (Suc (Suc (Suc (Suc 0)))) v" by (rule arg_cong)
  also have "\<dots> = [v div 2 div 2 div 2 mod 2, v div 2 div 2 mod 2, v div 2 mod 2, v mod 2]"
    by simp
  finally have a: "nat_bits 4 v
      = [v div 2 div 2 div 2 mod 2, v div 2 div 2 mod 2, v div 2 mod 2, v mod 2]" .
  have "v div 2 div 2 div 2 = v div 8" "v div 2 div 2 = v div 4"
    by (simp_all add: zdiv_zmult2_eq)
  with a show ?thesis by simp
qed

lemma scenario_raster:
  "glyph_raster host_be (drop 26 scenario_font) scenario_header 0 4 = Some [1, 0, 1, 0]"
  by (simp add: eval_defs host_be_def scenario_header_def scenario_font_def replicate_4)

lemma decode_a0: "decode_row 4 [CHR ''a'', CHR ''0'', newline] = [1, 0, 1, 0]"
  by (simp add: decode_row_def decode_hex_def hex_digit_value_def hex_lower_def newline_def
        nat_bits_4)

lemma scenario_raster_on: "set (raster_on_pixels [1, 0, 1, 0] (ftFRectWidth scenario_header) 0 0) = {(0, 0), (0, 2)}"
  by (auto simp: raster_on_pixels_def cell_def scenario_header_def upto.simps)

lemma scenario_decoded_on: "set (decoded_on_pixels 4 0 [''a0'' @ [newline]]) = {(0, 0), (0, 2)}"
  by (auto simp: decoded_on_pixels_def decode_a0 upto.simps)

lemma scenario_le_raster:
  "glyph_raster host_le (drop 26 scenario_font) scenario_header 0 4 = Some [0, 0, 0, 0]"
  by (simp add: eval_defs host_le_def host_be_def scenario_header_def scenario_font_def
        replicate_4)

lemma scenario_top_bot:
  "find_top_bot [1, 0, 1, 0] (ftFRectWidth scenario_header) (ftFRectHeight scenario_header)
     = Some (0, 0)"
  by (simp add: eval_defs scenario_header_def)

lemma scenario_loc:
  "toushort scenario_font (locTable scenario_header + 2 * ((65 - ftFirstChar scenario_header) + 0))
     = Some 0"
  "toushort scenario_font (locTable scenario_header + 2 * ((65 - ftFirstChar scenario_header) + 1))
     = Some 4"
  by (simp_all add: eval_defs scenario_header_def scenario_font_def)

text \<open>
  C3 (as stated, refuted). On a little-endian host \<^verbatim>\<open>bp [0]\<close> of the scenario resource
  is \<^verbatim>\<open>0x00A0\<close>, not \<^verbatim>\<open>0xA000\<close>: the pixel computed for row 0, column 0 is 0, while
  bit 15 of the most-significant-byte-first word is 1, and the raster of glyph A is
  empty.
\<close>

theorem little_endian_pixel_counterexample:
  "load_bp host_le scenario_font scenario_header = Some (drop 26 scenario_font)
   \<and> pixel host_le (drop 26 scenario_font) (ftRowWords scenario_header) 0 0 = Some 0
   \<and> image_bit scenario_font scenario_header 0 0 = Some 1
   \<and> glyph_raster host_le (drop 26 scenario_font) scenario_header 0 4 = Some [0, 0, 0, 0]"
  using scenario_le_pixel scenario_image_bits(1) scenario_le_raster by simp

theorem rasterizer_pixel_big_endian_witness:
  "pixel host_be (drop 26 scenario_font) (ftRowWords scenario_header) 0 2 = Some 1
   \<and> pixel host_be_odd (take 2 (drop 26 scenario_font)) (ftRowWords scenario_header) 0 2 = Some 1
   \<and> image_bit scenario_font scenario_header 0 2 = Some 1
   \<and> cell [1, 0, 1, 0] (ftFRectWidth scenario_header) 0 (2 - 0) = 1"
proof -
  have pre: "0 \<le> (0::int)" "0 < ftFRectHeight scenario_header" "0 \<le> (2::int)"
    "2 < 16 * ftRowWords scenario_header"
    "bitImage + ftFRectHeight scenario_header * ftRowWords scenario_header * 2
       \<le> int (length scenario_font)"
    by (simp_all add: scenario_header_def scenario_font_def bitImage_def)
  have be: "big_endian host_be" "big_endian host_be_odd"
    by (simp_all add: host_be_def host_be_odd_def)
  have ld: "load_bp host_be scenario_font scenario_header = Some (drop 26 scenario_font)"
    "load_bp host_be_odd scenario_font scenario_header = Some (take 2 (drop 26 scenario_font))"
    by (simp_all add: load_bp_def host_be_def host_be_odd_def bitImage_def scenario_header_def
          scenario_font_def)
  from rasterizer_pixel_big_endian [OF be(1) pre] ld(1) scenario_image_bits(3)
  have a: "pixel host_be (drop 26 scenario_font) (ftRowWords scenario_header) 0 2 = Some 1"
    and c: "\<forall>coff0 coff1 gp.
         coff0 \<le> 2 \<and> 2 < coff1
         \<and> glyph_raster host_be (drop 26 scenario_font) scenario_header coff0 coff1 = Some gp
         \<longrightarrow> cell gp (ftFRectWidth scenario_header) 0 (2 - coff0) = 1"
    by auto
  from rasterizer_pixel_big_endian [OF be(2) pre] ld(2) scenario_image_bits(3)
  have b: "pixel host_be_odd (take 2 (drop 26 scenario_font)) (ftRowWords scenario_header) 0 2
      = Some 1"
    by auto
  from c [rule_format, of 0 4 "[1, 0, 1, 0]"] scenario_raster
  have d: "cell [1, 0, 1, 0] (ftFRectWidth scenario_header) 0 (2 - 0) = 1"
    by (simp add: scenario_header_def)
  from a b d scenario_image_bits(3) show ?thesis by simp
qed




theorem bitmap_rows_round_trip_witness:
  "dump_glyph host_be scenario_font (drop 26 scenario_font) scenario_header 65
     = Some [STARTCHAR 65, ENCODING 65, SWIDTH 5760 0, DWIDTH 8 0, BBX 4 1 0 0, BITMAP,
             HEXROW (''a0'' @ [newline]), ENDCHAR]
   \<and> glyph_raster host_be (drop 26 scenario_font) scenario_header 0 4 = Some [1, 0, 1, 0]
   \<and> decode_row 4 (''a0'' @ [newline]) = [1, 0, 1, 0]
   \<and> set (decoded_on_pixels 4 0 [''a0'' @ [newline]]) = {(0, 0), (0, 2)}
   \<and> set (raster_on_pixels [1, 0, 1, 0] (ftFRectWidth scenario_header) 0 0) = {(0, 0), (0, 2)}"
proof -
  let ?ls = "[STARTCHAR 65, ENCODING 65, SWIDTH 5760 0, DWIDTH 8 0, BBX 4 1 0 0, BITMAP,
             HEXROW (''a0'' @ [newline]), ENDCHAR]"
  have pre: "?ls \<noteq> []" "0 < ftFRectHeight scenario_header"
    by (simp_all add: scenario_header_def)
  from bitmap_rows_round_trip [OF scenario_glyph_A pre(1) scenario_loc pre(2)]
  obtain gp tp bt where
    gr: "glyph_raster host_be (drop 26 scenario_font) scenario_header 0 4 = Some gp"
    and tb: "find_top_bot gp (ftFRectWidth scenario_header) (ftFRectHeight scenario_header)
          = Some (tp, bt)"
    and eq: "set (decoded_on_pixels (4 - 0) tp (map hexrow_text (butlast (drop 6 ?ls))))
        = set (raster_on_pixels gp (ftFRectWidth scenario_header) tp bt)"
    by blast
  from gr scenario_raster have gp: "gp = [1, 0, 1, 0]" by simp
  from tb scenario_top_bot have tbs: "tp = 0" "bt = 0" by (simp_all add: gp)
  note r = scenario_raster_on
  from eq have "set (decoded_on_pixels 4 0 [''a0'' @ [newline]])
      = set (raster_on_pixels [1, 0, 1, 0] (ftFRectWidth scenario_header) 0 0)"
    unfolding gp tbs by simp
  with r scenario_glyph_A scenario_raster decode_a0 show ?thesis by simp
qed

subsection \<open>Every access of a well-formed resource stays inside its buffer\<close>


lemma rd_ok: "0 \<le> a \<Longrightarrow> a < int (length m) \<Longrightarrow> \<exists>b. rd m a = Some b"
  by (simp add: rd_def)

lemma toushort_ok: "0 \<le> a \<Longrightarrow> a + 1 < int (length m) \<Longrightarrow> \<exists>w. toushort m a = Some w"
  by (simp add: toushort_def rd_def)



























subsection \<open>The value \<^verbatim>\<open>FontDump\<close> returns\<close>




end
